theory Spec2Isabelle
  imports Main "HOL-Library.Multiset"
begin

section \<open>Python values and exceptions\<close>

text \<open>
  The exceptions the modelled code can raise are values of \<open>error\<close>; a function that can
  raise returns \<open>error + 'a\<close> with \<open>Inl\<close> for the exception. \<open>IndexError\<close>, \<open>KeyError\<close>,
  \<open>TypeError\<close> and \<open>ValueError\<close> are Python's built-in exceptions. \<open>MapFormatError\<close> and
  \<open>EmptyFrontierError\<close> are the exception names of the design document: graph_search.py
  defines no exception class, and no function below returns either of them.
\<close>

datatype error =
  IndexError | KeyError | TypeError | ValueError | MapFormatError | EmptyFrontierError

text \<open>A grid state is the tuple \<open>(row, col)\<close>; \<open>s[_Y]\<close> is \<open>s[0]\<close>, \<open>s[_X]\<close> is \<open>s[1]\<close>.\<close>

type_synonym state = "int \<times> int"

definition ACTIONS :: "string list" where
  "ACTIONS = [''u'', ''d'', ''l'', ''r'']"

definition ACTIONS_2 :: "string list" where
  "ACTIONS_2 = [''u'', ''d'', ''l'', ''r'', ''ne'', ''nw'', ''sw'', ''se'']"

text \<open>
  \<open>for i in xs: body\<close> over a state, stopping at the first exception.
\<close>

fun for_loop :: "('i \<Rightarrow> 'st \<Rightarrow> error + 'st) \<Rightarrow> 'i list \<Rightarrow> 'st \<Rightarrow> error + 'st" where
  "for_loop body [] st = Inr st"
| "for_loop body (i # rest) st =
     (case body i st of Inl e \<Rightarrow> Inl e | Inr st' \<Rightarrow> for_loop body rest st')"

subsection \<open>str.rstrip and str.lower on ASCII text\<close>

text \<open>
  The map file is read as text. The model covers ASCII files: \<open>py_isspace\<close> is
  \<open>str.isspace\<close> on the ASCII range (tab, line feed, vertical tab, form feed, carriage
  return, the four separators 0x1C to 0x1F and the space), \<open>py_lower\<close> maps \<open>A\<close> to \<open>Z\<close>
  to \<open>a\<close> to \<open>z\<close>.
\<close>

definition py_isspace :: "char \<Rightarrow> bool" where
  "py_isspace ch = (let n = (of_char ch :: nat) in (9 \<le> n \<and> n \<le> 13) \<or> (28 \<le> n \<and> n \<le> 32))"

definition rstrip :: "string \<Rightarrow> string" where
  "rstrip l = rev (dropWhile py_isspace (rev l))"

definition py_lower :: "char \<Rightarrow> char" where
  "py_lower ch =
     (let n = (of_char ch :: nat) in if 65 \<le> n \<and> n \<le> 90 then char_of (n + 32) else ch)"

definition lower :: "string \<Rightarrow> string" where
  "lower l = map py_lower l"

section \<open>GridMap\<close>

text \<open>
  The five attributes \<open>__init__\<close> sets to \<open>None\<close>. The occupancy grid is numpy's
  two-dimensional boolean array, a list of rows.
\<close>

record GridMap =
  rows :: "int option"
  cols :: "int option"
  goal :: "state option"
  init_pos :: "state option"
  occupancy_grid :: "bool list list option"

definition GridMap_new :: GridMap where
  "GridMap_new =
     \<lparr>rows = None, cols = None, goal = None, init_pos = None, occupancy_grid = None\<rparr>"

subsection \<open>read_map\<close>

text \<open>
  The body of the inner loop of \<open>read_map\<close> at row \<open>r\<close> and column \<open>c\<close>, on the three
  attributes the loops assign: the grid, \<open>goal\<close> and \<open>init_pos\<close>. \<open>lines[r][c]\<close> raises
  IndexError when the line has no character at \<open>c\<close> (\<open>r\<close> ranges over the lines and \<open>c\<close>
  is never negative).
\<close>

definition read_cell ::
  "string list \<Rightarrow> nat \<Rightarrow> nat \<Rightarrow> bool list list \<times> state option \<times> state option
     \<Rightarrow> error + bool list list \<times> state option \<times> state option" where
  "read_cell lines r c st =
     (case st of (grid, g, i) \<Rightarrow>
        if length (lines ! r) \<le> c then Inl IndexError
        else
          let ch = lines ! r ! c;
              grid' = (if ch = CHR ''x'' then grid[r := (grid ! r)[c := True]] else grid)
          in if ch = CHR ''g'' then Inr (grid', Some (int r, int c), i)
             else if ch = CHR ''i'' then Inr (grid', g, Some (int r, int c))
             else Inr (grid', g, i))"

text \<open>
  \<open>read_map\<close> on the list \<open>readlines()\<close> returns (opening the file is outside the model,
  and so are the \<open>_DEBUG\<close> prints). \<open>max\<close> of the empty list raises ValueError;
  \<open>np.zeros\<close> gives a grid of \<open>False\<close>. An exception leaves \<open>read_map\<close>, and the
  constructor that called it, without an object.
\<close>

definition read_map :: "GridMap \<Rightarrow> string list \<Rightarrow> error + GridMap" where
  "read_map self file_lines =
     (let lines = map (\<lambda>l. lower (rstrip l)) file_lines;
          nrows = length lines
      in if lines = [] then Inl ValueError
         else
           let ncols = Max (set (map length lines));
               zeros = replicate nrows (replicate ncols False)
           in case for_loop (\<lambda>r. for_loop (\<lambda>c. read_cell lines r c) [0..<ncols]) [0..<nrows]
                     (zeros, goal self, init_pos self) of
                Inl e \<Rightarrow> Inl e
              | Inr (grid, g, i) \<Rightarrow>
                  Inr (self\<lparr>rows := Some (int nrows), cols := Some (int ncols),
                         occupancy_grid := Some grid, goal := g, init_pos := i\<rparr>))"

text \<open>\<open>GridMap(map_path)\<close>: the constructor, called with a path.\<close>

definition GridMap_init :: "string list \<Rightarrow> error + GridMap" where
  "GridMap_init file_lines = read_map GridMap_new file_lines"

text \<open>
  What \<open>readlines()\<close> returns for a file with the given lines, each ended by a line feed.
\<close>

definition file_lines_of :: "string list \<Rightarrow> string list" where
  "file_lines_of ls = map (\<lambda>l. l @ [CHR 0x0A]) ls"

subsection \<open>transition\<close>

text \<open>
  numpy's \<open>a[i, j]\<close>: an index below \<open>-n\<close> or from \<open>n\<close> on raises IndexError, a negative one
  counts from the end.
\<close>

definition np_index :: "nat \<Rightarrow> int \<Rightarrow> error + nat" where
  "np_index n i =
     (if i < - int n \<or> int n \<le> i then Inl IndexError
      else Inr (nat (if i < 0 then i + int n else i)))"

definition np_getitem :: "bool list list \<Rightarrow> state \<Rightarrow> error + bool" where
  "np_getitem grid p =
     (case np_index (length grid) (fst p) of
        Inl e \<Rightarrow> Inl e
      | Inr r \<Rightarrow>
          (case np_index (length (grid ! r)) (snd p) of
             Inl e \<Rightarrow> Inl e
           | Inr c \<Rightarrow> Inr (grid ! r ! c)))"

text \<open>
  \<open>transition\<close> returns what it printed and its result. \<open>self.rows - 1\<close> and the subscript
  of the grid raise TypeError on an object whose map was never read. The function assigns no
  attribute of \<open>self\<close>, so the grid is not part of the result.
\<close>

definition transition :: "GridMap \<Rightarrow> state \<Rightarrow> string \<Rightarrow> string list \<times> (error + state)" where
  "transition self s a =
     (let (out, moved) =
        (if a = ''u'' then
           ([], Inr (if fst s > 0 then (fst s - 1, snd s) else s))
         else if a = ''d'' then
           ([], case rows self of
                  None \<Rightarrow> Inl TypeError
                | Some n \<Rightarrow> Inr (if fst s < n - 1 then (fst s + 1, snd s) else s))
         else if a = ''l'' then
           ([], Inr (if snd s > 0 then (fst s, snd s - 1) else s))
         else if a = ''r'' then
           ([], case cols self of
                  None \<Rightarrow> Inl TypeError
                | Some n \<Rightarrow> Inr (if snd s < n - 1 then (fst s, snd s + 1) else s))
         else ([''Unknown action: '' @ a], Inr s))
      in (out,
          case moved of
            Inl e \<Rightarrow> Inl e
          | Inr new_pos \<Rightarrow>
              (case occupancy_grid self of
                 None \<Rightarrow> Inl TypeError
               | Some grid \<Rightarrow>
                   (case np_getitem grid new_pos of
                      Inl e \<Rightarrow> Inl e
                    | Inr occ \<Rightarrow> Inr (if occ then s else new_pos)))))"

subsection \<open>The vocabulary of the grid properties\<close>

text \<open>
  A loaded map: \<open>rows\<close>, \<open>cols\<close> and the grid are set and the grid has that shape.
\<close>

definition grid_ok :: "GridMap \<Rightarrow> bool" where
  "grid_ok g =
     (case (rows g, cols g, occupancy_grid g) of
        (Some r, Some c, Some grid) \<Rightarrow>
          int (length grid) = r \<and> list_all (\<lambda>row. int (length row) = c) grid
      | _ \<Rightarrow> False)"

definition in_bounds :: "GridMap \<Rightarrow> state \<Rightarrow> bool" where
  "in_bounds g s =
     (case (rows g, cols g) of
        (Some r, Some c) \<Rightarrow> 0 \<le> fst s \<and> fst s < r \<and> 0 \<le> snd s \<and> snd s < c
      | _ \<Rightarrow> False)"

text \<open>The cell of an in-bounds state is occupied.\<close>

definition occupied :: "GridMap \<Rightarrow> state \<Rightarrow> bool" where
  "occupied g s =
     (case occupancy_grid g of
        Some grid \<Rightarrow> grid ! nat (fst s) ! nat (snd s)
      | None \<Rightarrow> False)"

text \<open>
  The cell one step from \<open>s\<close> in the direction of the action, whether or not it is on the
  grid: what "applying the action" means in the properties below. It is not a function of
  the source.
\<close>

definition displace :: "state \<Rightarrow> string \<Rightarrow> state" where
  "displace s a =
     (if a = ''u'' then (fst s - 1, snd s)
      else if a = ''d'' then (fst s + 1, snd s)
      else if a = ''l'' then (fst s, snd s - 1)
      else if a = ''r'' then (fst s, snd s + 1)
      else s)"

text \<open>A three by three map with the rows \<open>i0x\<close>, \<open>00x\<close>, \<open>00g\<close>.\<close>

definition map1 :: GridMap where
  "map1 =
     \<lparr>rows = Some 3, cols = Some 3, goal = Some (2, 2), init_pos = Some (0, 0),
      occupancy_grid =
        Some [[False, False, True], [False, False, True], [False, False, False]]\<rparr>"

text \<open>
  The cells that carry a marker character once the lines are stripped and lowered, in
  the order the loops of \<open>read_map\<close> visit them (row by row), and the value an attribute
  has after a run of assignments: the last one, or the old value when there was none.
  Both are vocabulary of the properties of \<open>read_map\<close>, not functions of the source.
\<close>

definition row_cells :: "char \<Rightarrow> string list \<Rightarrow> nat \<Rightarrow> nat list \<Rightarrow> state list" where
  "row_cells ch lines r cs = map (\<lambda>c. (int r, int c)) (filter (\<lambda>c. lines ! r ! c = ch) cs)"

definition marker_cells :: "char \<Rightarrow> string list \<Rightarrow> state list" where
  "marker_cells ch file_lines =
     (let lines = map (\<lambda>l. lower (rstrip l)) file_lines
      in concat (map (\<lambda>r. row_cells ch lines r [0..<length (lines ! r)]) [0..<length lines]))"

definition keep_last :: "'a option \<Rightarrow> 'a list \<Rightarrow> 'a option" where
  "keep_last old xs = (if xs = [] then old else Some (last xs))"

text \<open>The map read from the single line \<open>00\<close>: no cell is marked.\<close>

definition map2 :: GridMap where
  "map2 =
     \<lparr>rows = Some 1, cols = Some 2, goal = None, init_pos = None,
      occupancy_grid = Some [[False, False]]\<rparr>"

section \<open>SearchNode and backpath\<close>

text \<open>
  \<open>SearchNode(s, A, parent, parent_action, cost)\<close>, its attributes in the order of the
  constructor's parameters. A search node is identified with the values of its attributes:
  the code never assigns an attribute of a node after its construction.
\<close>

datatype SearchNode =
  SearchNode (state: state) (actions: "string list") (parent: "SearchNode option")
    (parent_action: "string option") (cost: int)

text \<open>
  \<open>backpath\<close> as the source has it: both lists are created empty and returned, the body
  between them is the comment \<open># Fill me in!\<close>.
\<close>

definition backpath :: "SearchNode \<Rightarrow> state list \<times> string list" where
  "backpath node = (let path = []; action_path = [] in (path, action_path))"

section \<open>heapq\<close>

text \<open>
  \<open>PriorityQ\<close> keeps its entries in a list managed by Python's \<open>heapq\<close> module. The
  functions below follow the module's reference implementation (\<open>Lib/heapq.py\<close>:
  \<open>heappush\<close>, \<open>heappop\<close>, \<open>heapify\<close>, \<open>_siftdown\<close>, \<open>_siftup\<close>), statement by
  statement.

  These functions change the list in place, so a comparison that raises leaves a changed
  list behind. A function below that raises returns the exception together with the list
  as it is at that moment. While \<open>_siftdown\<close> and \<open>_siftup\<close> run, the entry \<open>newitem\<close> is
  held in a variable and the position \<open>pos\<close> waits for it; CPython's heapq (the functions
  of its \<open>_heapq\<close> module, which the last lines of \<open>heapq.py\<close> import in place of the
  ones above them) makes the same comparisons in the same order and keeps \<open>newitem\<close> in
  the list at \<open>pos\<close>. The list at a raise is therefore the list with \<open>newitem\<close> at
  \<open>pos\<close>; when no comparison raises the two implementations return the same list.

  An entry is the tuple \<open>(cost, x)\<close> that \<open>push\<close> stores; costs are Python integers.
  \<open>heapq\<close> compares entries with \<open><\<close>. Python compares two tuples at the first position
  where they are not equal: when the costs differ the costs decide; when the costs are
  equal the nodes are compared, and \<open>SearchNode\<close> defines neither \<open>__eq__\<close> nor \<open>__lt__\<close>, so
  two nodes are equal only when they are the same object and \<open><\<close> between two nodes raises
  TypeError (Python 3).
\<close>

type_synonym entry = "int \<times> SearchNode"

definition entry_lt :: "entry \<Rightarrow> entry \<Rightarrow> error + bool" where
  "entry_lt a b =
     (if fst a \<noteq> fst b then Inr (fst a < fst b)
      else if snd a = snd b then Inr False
      else Inl TypeError)"

text \<open>
  The loop of \<open>_siftdown\<close>: \<open>newitem\<close> moves from \<open>pos\<close> towards \<open>startpos\<close> past every
  parent it is smaller than; the assignment after the loop is made where the loop ends.
\<close>

function siftdown_loop ::
  "entry list \<Rightarrow> nat \<Rightarrow> entry \<Rightarrow> nat \<Rightarrow> error \<times> entry list + entry list" where
  "siftdown_loop heap startpos newitem pos =
     (if pos > startpos then
        (let parentpos = (pos - 1) div 2;
             parent = heap ! parentpos
         in case entry_lt newitem parent of
              Inl e \<Rightarrow> Inl (e, heap[pos := newitem])
            | Inr lt \<Rightarrow>
                if lt then siftdown_loop (heap[pos := parent]) startpos newitem parentpos
                else Inr (heap[pos := newitem]))
      else Inr (heap[pos := newitem]))"
  by pat_completeness auto
termination
  by (relation "measure (\<lambda>(heap, startpos, newitem, pos). pos)") auto

declare siftdown_loop.simps [simp del]

definition siftdown :: "entry list \<Rightarrow> nat \<Rightarrow> nat \<Rightarrow> error \<times> entry list + entry list" where
  "siftdown heap startpos pos =
     (if length heap \<le> pos then Inl (IndexError, heap)
      else siftdown_loop heap startpos (heap ! pos) pos)"

text \<open>
  The choice of \<open>childpos\<close> in the loop of \<open>_siftup\<close>: the right child when it exists and
  the left one is not smaller.
\<close>

definition smaller_child :: "entry list \<Rightarrow> nat \<Rightarrow> error + nat" where
  "smaller_child heap childpos =
     (let rightpos = childpos + 1
      in if rightpos < length heap then
           (case entry_lt (heap ! childpos) (heap ! rightpos) of
              Inl e \<Rightarrow> Inl e
            | Inr lt \<Rightarrow> Inr (if \<not> lt then rightpos else childpos))
         else Inr childpos)"

lemma smaller_child_bounds:
  "smaller_child heap childpos = Inr cp \<Longrightarrow> cp = childpos \<or> (cp = childpos + 1 \<and> cp < length heap)"
  by (auto simp: smaller_child_def Let_def split: if_splits sum.splits)

text \<open>
  The loop of \<open>_siftup\<close>: the smaller child moves up until \<open>pos\<close> is a leaf. It returns
  the list and the leaf; \<open>newitem\<close> is the entry that waits for its place.
\<close>

function siftup_loop ::
  "entry list \<Rightarrow> entry \<Rightarrow> nat \<Rightarrow> error \<times> entry list + entry list \<times> nat" where
  "siftup_loop heap newitem pos =
     (let childpos = 2 * pos + 1
      in if childpos < length heap then
           (case smaller_child heap childpos of
              Inl e \<Rightarrow> Inl (e, heap[pos := newitem])
            | Inr cp \<Rightarrow> siftup_loop (heap[pos := heap ! cp]) newitem cp)
         else Inr (heap, pos))"
  by pat_completeness auto
termination
proof (relation "measure (\<lambda>(heap, newitem, pos). length heap - pos)")
  show "wf (measure (\<lambda>(heap, newitem, pos). length heap - pos))" by simp
next
  fix heap :: "entry list" and newitem :: entry and pos childpos cp
  assume "childpos = 2 * pos + 1" "childpos < length heap" "smaller_child heap childpos = Inr cp"
  then show "((heap[pos := heap ! cp], newitem, cp), (heap, newitem, pos))
      \<in> measure (\<lambda>(heap, newitem, pos). length heap - pos)"
    using smaller_child_bounds[of heap childpos cp] by auto
qed

declare siftup_loop.simps [simp del]

definition siftup :: "entry list \<Rightarrow> nat \<Rightarrow> error \<times> entry list + entry list" where
  "siftup heap pos =
     (if length heap \<le> pos then Inl (IndexError, heap)
      else
        let newitem = heap ! pos
        in case siftup_loop heap newitem pos of
             Inl r \<Rightarrow> Inl r
           | Inr (heap', pos') \<Rightarrow> siftdown (heap'[pos' := newitem]) pos pos')"

definition heappush :: "entry list \<Rightarrow> entry \<Rightarrow> error \<times> entry list + entry list" where
  "heappush heap item = siftdown (heap @ [item]) 0 (length (heap @ [item]) - 1)"

definition heappop :: "entry list \<Rightarrow> error \<times> entry list + entry \<times> entry list" where
  "heappop heap =
     (if heap = [] then Inl (IndexError, heap)
      else
        let lastelt = last heap;
            heap' = butlast heap
        in if heap' \<noteq> [] then
             (let returnitem = heap' ! 0
              in case siftup (heap'[0 := lastelt]) 0 of
                   Inl r \<Rightarrow> Inl r
                 | Inr heap'' \<Rightarrow> Inr (returnitem, heap''))
           else Inr (lastelt, heap'))"

text \<open>The loop of \<open>heapify\<close> over the indices it is given.\<close>

fun heapify_loop :: "nat list \<Rightarrow> entry list \<Rightarrow> error \<times> entry list + entry list" where
  "heapify_loop [] x = Inr x"
| "heapify_loop (i # rest) x =
     (case siftup x i of Inl r \<Rightarrow> Inl r | Inr x' \<Rightarrow> heapify_loop rest x')"

definition heapify :: "entry list \<Rightarrow> error \<times> entry list + entry list" where
  "heapify x = heapify_loop (rev [0..<length x div 2]) x"

section \<open>PriorityQ\<close>

text \<open>
  The attributes \<open>self.l\<close> (the heap) and \<open>self.s\<close> (the set of the states in it), here
  \<open>pq_l\<close> and \<open>pq_s\<close>: a field named \<open>l\<close> or \<open>s\<close> would take these names from the
  variables of every later statement. A method that raises returns the exception together
  with the queue as it is at that moment.
\<close>

record PriorityQ =
  pq_l :: "entry list"
  pq_s :: "state set"

definition PriorityQ_new :: PriorityQ where
  "PriorityQ_new = \<lparr>pq_l = [], pq_s = {}\<rparr>"

definition contains :: "PriorityQ \<Rightarrow> state \<Rightarrow> bool" where
  "contains self x = (x \<in> pq_s self)"

definition len :: "PriorityQ \<Rightarrow> nat" where
  "len self = length (pq_l self)"

text \<open>\<open>set.remove\<close> raises KeyError when the element is not in the set.\<close>

definition set_remove :: "state set \<Rightarrow> state \<Rightarrow> error + state set" where
  "set_remove S x = (if x \<in> S then Inr (S - {x}) else Inl KeyError)"

text \<open>
  The loop of \<open>replace\<close>: the first entry of the list with the state of \<open>x\<close> is removed
  from the list and its state from the set, and the loop ends. \<open>list.remove(y)\<close> removes
  the first element equal to \<open>y\<close>; an element equal to \<open>y\<close> has the state of \<open>y\<close>, and
  \<open>y\<close> is the first element with that state, so it is \<open>y\<close> that is removed.
\<close>

definition replace_remove :: "PriorityQ \<Rightarrow> SearchNode \<Rightarrow> error \<times> PriorityQ + PriorityQ" where
  "replace_remove self x =
     (case find (\<lambda>y. state x = state (snd y)) (pq_l self) of
        None \<Rightarrow> Inr self
      | Some y \<Rightarrow>
          (case set_remove (pq_s self) (state (snd y)) of
             Inl e \<Rightarrow> Inl (e, self\<lparr>pq_l := remove1 y (pq_l self)\<rparr>)
           | Inr S \<Rightarrow> Inr \<lparr>pq_l = remove1 y (pq_l self), pq_s = S\<rparr>))"

text \<open>
  \<open>push\<close> and \<open>replace\<close> call each other: \<open>push\<close> calls \<open>replace\<close> when the state is in
  \<open>self.s\<close>, and \<open>replace\<close> ends with a call of \<open>push\<close>. \<open>push\<close> is defined with the body
  of \<open>replace\<close> in place of the call, and \<open>replace\<close> after it; \<open>push_present\<close> below shows
  that \<open>push\<close> is \<open>replace\<close> on a state of \<open>self.s\<close>. The result \<open>None\<close> stands for a
  recursion that does not end by itself (when \<open>self.s\<close> holds a state that no entry of
  the list has; Python stops it at its recursion limit).
\<close>

partial_function (option) push ::
  "PriorityQ \<Rightarrow> SearchNode \<Rightarrow> int \<Rightarrow> (error \<times> PriorityQ + PriorityQ) option" where
  "push self x c =
     (if state x \<in> pq_s self then
        (case replace_remove self x of
           Inl r \<Rightarrow> Some (Inl r)
         | Inr self' \<Rightarrow>
             (case heapify (pq_l self') of
                Inl r \<Rightarrow> Some (Inl (fst r, self'\<lparr>pq_l := snd r\<rparr>))
              | Inr heap \<Rightarrow> push (self'\<lparr>pq_l := heap\<rparr>) x c))
      else
        (case heappush (pq_l self) (c, x) of
           Inl r \<Rightarrow> Some (Inl (fst r, self\<lparr>pq_l := snd r\<rparr>))
         | Inr heap \<Rightarrow> Some (Inr \<lparr>pq_l = heap, pq_s = insert (state x) (pq_s self)\<rparr>)))"

declare push.simps [code]

definition replace ::
  "PriorityQ \<Rightarrow> SearchNode \<Rightarrow> int \<Rightarrow> (error \<times> PriorityQ + PriorityQ) option" where
  "replace self x new_cost =
     (case replace_remove self x of
        Inl r \<Rightarrow> Some (Inl r)
      | Inr self' \<Rightarrow>
          (case heapify (pq_l self') of
             Inl r \<Rightarrow> Some (Inl (fst r, self'\<lparr>pq_l := snd r\<rparr>))
           | Inr heap \<Rightarrow> push (self'\<lparr>pq_l := heap\<rparr>) x new_cost))"

text \<open>\<open>pop\<close> returns the node and the queue it leaves.\<close>

definition pop :: "PriorityQ \<Rightarrow> error \<times> PriorityQ + SearchNode \<times> PriorityQ" where
  "pop self =
     (case heappop (pq_l self) of
        Inl r \<Rightarrow> Inl (fst r, self\<lparr>pq_l := snd r\<rparr>)
      | Inr (x, heap) \<Rightarrow>
          (case set_remove (pq_s self) (state (snd x)) of
             Inl e \<Rightarrow> Inl (e, self\<lparr>pq_l := heap\<rparr>)
           | Inr S \<Rightarrow> Inr (snd x, \<lparr>pq_l = heap, pq_s = S\<rparr>)))"

definition peak :: "PriorityQ \<Rightarrow> error + SearchNode" where
  "peak self = (case pq_l self of [] \<Rightarrow> Inl IndexError | x # _ \<Rightarrow> Inr (snd x))"

text \<open>\<open>get_cost\<close> returns \<open>None\<close> when its loop finds no entry with the state.\<close>

definition get_cost :: "PriorityQ \<Rightarrow> SearchNode \<Rightarrow> int option" where
  "get_cost self x = map_option fst (find (\<lambda>y. state x = state (snd y)) (pq_l self))"

subsection \<open>The vocabulary of the queue properties\<close>

text \<open>
  The invariant of the queue: no two entries of the list have the same state, and
  \<open>self.s\<close> is the set of the states of the entries.
\<close>

definition pq_inv :: "PriorityQ \<Rightarrow> bool" where
  "pq_inv q =
     (distinct (map (\<lambda>y. state (snd y)) (pq_l q))
      \<and> pq_s q = set (map (\<lambda>y. state (snd y)) (pq_l q)))"

text \<open>
  A sequence of calls of \<open>push\<close>, \<open>pop\<close> and \<open>replace\<close> on one queue. An exception ends
  the sequence: the result is the exception and the queue the call that raised leaves
  behind.
\<close>

datatype op = Push SearchNode int | Pop | Replace SearchNode int

fun step :: "PriorityQ \<Rightarrow> op \<Rightarrow> (error \<times> PriorityQ + PriorityQ) option" where
  "step q (Push x c) = push q x c"
| "step q Pop = Some (case pop q of Inl r \<Rightarrow> Inl r | Inr (x, q') \<Rightarrow> Inr q')"
| "step q (Replace x c) = replace q x c"

fun run :: "PriorityQ \<Rightarrow> op list \<Rightarrow> (error \<times> PriorityQ + PriorityQ) option" where
  "run q [] = Some (Inr q)"
| "run q (a # ops) =
     (case step q a of
        None \<Rightarrow> None
      | Some (Inl r) \<Rightarrow> Some (Inl r)
      | Some (Inr q') \<Rightarrow> run q' ops)"

text \<open>A node with no parent: \<open>SearchNode(st, _ACTIONS, cost=c)\<close>.\<close>

definition root_node :: "state \<Rightarrow> int \<Rightarrow> SearchNode" where
  "root_node st c = SearchNode st ACTIONS None None c"

text \<open>
  The heap order on the costs, from index \<open>k\<close> on: every entry whose parent is at \<open>k\<close> or
  later costs at least as much as its parent. \<open>under k p\<close>: \<open>p\<close> is \<open>k\<close> or below it in the
  tree. \<open>hole_ok\<close>: the order holds around a position \<open>pos\<close> that waits for \<open>x\<close>.
\<close>

definition heap_above :: "entry list \<Rightarrow> nat \<Rightarrow> bool" where
  "heap_above h k =
     (\<forall>c. 0 < c \<and> c < length h \<and> k \<le> (c - 1) div 2 \<longrightarrow> fst (h ! ((c - 1) div 2)) \<le> fst (h ! c))"

inductive under :: "nat \<Rightarrow> nat \<Rightarrow> bool" where
  under_self: "under k k"
| under_left: "under k p \<Longrightarrow> under k (2 * p + 1)"
| under_right: "under k p \<Longrightarrow> under k (2 * p + 2)"

definition hole_ok :: "entry list \<Rightarrow> nat \<Rightarrow> entry \<Rightarrow> nat \<Rightarrow> bool" where
  "hole_ok h k x pos =
     ((\<forall>c. 0 < c \<and> c < length h \<and> k \<le> (c - 1) div 2 \<and> c \<noteq> pos \<and> (c - 1) div 2 \<noteq> pos
           \<longrightarrow> fst (h ! ((c - 1) div 2)) \<le> fst (h ! c))
      \<and> (\<forall>c. 0 < c \<and> c < length h \<and> (c - 1) div 2 = pos
           \<longrightarrow> fst x \<le> fst (h ! c) \<and> (k < pos \<longrightarrow> fst (h ! ((pos - 1) div 2)) \<le> fst (h ! c))))"

section \<open>Properties of the grid map\<close>

subsection \<open>transition on a loaded map\<close>

lemma np_getitem_in:
  assumes "grid_ok g" "in_bounds g p" "occupancy_grid g = Some grid"
  shows "np_getitem grid p = Inr (occupied g p)"
  using assms
  by (auto simp: grid_ok_def in_bounds_def occupied_def np_getitem_def np_index_def list_all_length
      split: option.splits)

lemma transition_cases:
  assumes "grid_ok g" "in_bounds g s" "a \<in> set ACTIONS"
  shows "transition g s a =
     ([], Inr (if in_bounds g (displace s a) \<and> \<not> occupied g (displace s a) then displace s a else s))"
proof -
  obtain r c grid where g: "rows g = Some r" "cols g = Some c" "occupancy_grid g = Some grid"
    using assms(1) by (auto simp: grid_ok_def split: option.splits)
  have ib: "in_bounds g p \<Longrightarrow> np_getitem grid p = Inr (occupied g p)" for p
    using np_getitem_in[OF assms(1) _ g(3)] by simp
  have s: "np_getitem grid s = Inr (occupied g s)" using ib assms(2) by simp
  from assms(3) consider "a = ''u''" | "a = ''d''" | "a = ''l''" | "a = ''r''"
    by (auto simp: ACTIONS_def)
  then show ?thesis
  proof cases
    case 1
    show ?thesis
    proof (cases "fst s > 0")
      case True
      then have "in_bounds g (fst s - 1, snd s)" using assms(2) g by (auto simp: in_bounds_def)
      then show ?thesis using 1 True g ib by (simp add: transition_def displace_def)
    next
      case False
      then have "\<not> in_bounds g (fst s - 1, snd s)" using g by (auto simp: in_bounds_def)
      then show ?thesis using 1 False g s by (simp add: transition_def displace_def)
    qed
  next
    case 2
    show ?thesis
    proof (cases "fst s < r - 1")
      case True
      then have "in_bounds g (fst s + 1, snd s)" using assms(2) g by (auto simp: in_bounds_def)
      then show ?thesis using 2 True g ib by (simp add: transition_def displace_def)
    next
      case False
      then have "\<not> in_bounds g (fst s + 1, snd s)" using g by (auto simp: in_bounds_def)
      then show ?thesis using 2 False g s by (simp add: transition_def displace_def)
    qed
  next
    case 3
    show ?thesis
    proof (cases "snd s > 0")
      case True
      then have "in_bounds g (fst s, snd s - 1)" using assms(2) g by (auto simp: in_bounds_def)
      then show ?thesis using 3 True g ib by (simp add: transition_def displace_def)
    next
      case False
      then have "\<not> in_bounds g (fst s, snd s - 1)" using g by (auto simp: in_bounds_def)
      then show ?thesis using 3 False g s by (simp add: transition_def displace_def)
    qed
  next
    case 4
    show ?thesis
    proof (cases "snd s < c - 1")
      case True
      then have "in_bounds g (fst s, snd s + 1)" using assms(2) g by (auto simp: in_bounds_def)
      then show ?thesis using 4 True g ib by (simp add: transition_def displace_def)
    next
      case False
      then have "\<not> in_bounds g (fst s, snd s + 1)" using g by (auto simp: in_bounds_def)
      then show ?thesis using 4 False g s by (simp add: transition_def displace_def)
    qed
  qed
qed

subsection \<open>The loops of read_map\<close>

lemma map_length_update:
  "map length (grid[r := (grid ! r)[c := v]]) = map length grid"
proof (cases "r < length grid")
  case True
  then show ?thesis by (simp add: map_update list_update_same_conv)
next
  case False
  then show ?thesis by (simp add: not_less list_update_beyond)
qed

lemma read_cell_Inr:
  assumes "c < length (lines ! r)"
  shows "\<exists>grid' g' i'. read_cell lines r c (grid, g, i) = Inr (grid', g', i')
           \<and> map length grid' = map length grid"
  using assms by (simp add: read_cell_def Let_def map_length_update)

lemma read_cell_Inl:
  assumes "length (lines ! r) \<le> c"
  shows "read_cell lines r c st = Inl IndexError"
  using assms by (simp add: read_cell_def split: prod.splits)

lemma read_cell_error: "read_cell lines r c st = Inl e \<Longrightarrow> e = IndexError"
  by (auto simp: read_cell_def Let_def split: prod.splits if_splits)

lemma row_loop_Inr:
  assumes "\<forall>c \<in> set cs. c < length (lines ! r)"
  shows "\<exists>grid' g' i'. for_loop (read_cell lines r) cs (grid, g, i) = Inr (grid', g', i')
           \<and> map length grid' = map length grid"
  using assms
proof (induction cs arbitrary: grid g i)
  case Nil
  then show ?case by simp
next
  case (Cons c cs)
  then have "c < length (lines ! r)" by simp
  from read_cell_Inr[OF this, of grid g i] obtain grid1 g1 i1 where
    1: "read_cell lines r c (grid, g, i) = Inr (grid1, g1, i1)" "map length grid1 = map length grid"
    by blast
  from Cons.IH[of grid1 g1 i1] Cons.prems obtain grid2 g2 i2 where
    2: "for_loop (read_cell lines r) cs (grid1, g1, i1) = Inr (grid2, g2, i2)"
       "map length grid2 = map length grid1" by auto
  show ?case using 1 2 by simp
qed

lemma for_loop_error:
  assumes "\<And>x st e. body x st = Inl e \<Longrightarrow> e = err" "for_loop body xs st = Inl e"
  shows "e = err"
  using assms(2)
proof (induction xs arbitrary: st)
  case Nil
  then show ?case by simp
next
  case (Cons x xs)
  then show ?case using assms(1) by (auto split: sum.splits)
qed

lemma for_loop_Inl:
  assumes "x \<in> set xs" "\<And>st. body x st = Inl err" "\<And>y st e. body y st = Inl e \<Longrightarrow> e = err"
  shows "for_loop body xs st = Inl err"
  using assms(1)
proof (induction xs arbitrary: st)
  case Nil
  then show ?case by simp
next
  case (Cons y ys)
  show ?case
  proof (cases "body y st")
    case (Inl e)
    then show ?thesis using assms(3) by auto
  next
    case (Inr st')
    have "y \<noteq> x" using Inr assms(2)[of st] by auto
    then have "x \<in> set ys" using Cons.prems by simp
    then show ?thesis using Inr Cons.IH by simp
  qed
qed

lemma grid_loop_Inr:
  assumes "\<forall>r \<in> set rs. n \<le> length (lines ! r)"
  shows "\<exists>grid' g' i'.
           for_loop (\<lambda>r. for_loop (read_cell lines r) [0..<n]) rs (grid, g, i) = Inr (grid', g', i')
           \<and> map length grid' = map length grid"
  using assms
proof (induction rs arbitrary: grid g i)
  case Nil
  then show ?case by simp
next
  case (Cons r rs)
  then have "\<forall>c \<in> set [0..<n]. c < length (lines ! r)" by auto
  from row_loop_Inr[OF this, of grid g i] obtain grid1 g1 i1 where
    1: "for_loop (read_cell lines r) [0..<n] (grid, g, i) = Inr (grid1, g1, i1)"
       "map length grid1 = map length grid"
    by blast
  from Cons.IH[of grid1 g1 i1] Cons.prems obtain grid2 g2 i2 where
    2: "for_loop (\<lambda>r. for_loop (read_cell lines r) [0..<n]) rs (grid1, g1, i1) = Inr (grid2, g2, i2)"
       "map length grid2 = map length grid1" by auto
  show ?case using 1 2 by simp
qed

lemma grid_loop_Inl:
  assumes "r \<in> set rs" "length (lines ! r) < n"
  shows "for_loop (\<lambda>r. for_loop (read_cell lines r) [0..<n]) rs st = Inl IndexError"
proof (rule for_loop_Inl[OF assms(1)])
  fix st
  have "length (lines ! r) \<in> set [0..<n]" using assms(2) by simp
  then show "for_loop (read_cell lines r) [0..<n] st = Inl IndexError"
    by (rule for_loop_Inl) (auto simp: read_cell_Inl dest: read_cell_error)
next
  fix y st e
  assume "for_loop (read_cell lines y) [0..<n] st = Inl e"
  then show "e = IndexError"
    using for_loop_error[of "read_cell lines y" IndexError] read_cell_error by blast
qed


lemma read_map_Inr:
  assumes "file_lines \<noteq> []"
    and "\<forall>l \<in> set file_lines. length (rstrip l) = n"
  shows "\<exists>grid g i. read_map self file_lines =
            Inr (self\<lparr>rows := Some (int (length file_lines)), cols := Some (int n),
                   occupancy_grid := Some grid, goal := g, init_pos := i\<rparr>)
          \<and> map length grid = replicate (length file_lines) n"
proof -
  define lines where "lines = map (\<lambda>l. lower (rstrip l)) file_lines"
  have ne: "lines \<noteq> []" using assms(1) by (simp add: lines_def)
  have len: "\<forall>l \<in> set lines. length l = n" using assms(2) by (auto simp: lines_def lower_def)
  have "set (map length lines) = {n}" using ne len by (cases lines) auto
  then have mx: "Max (set (map length lines)) = n" by simp
  have "\<forall>r \<in> set [0..<length lines]. n \<le> length (lines ! r)" using len by simp
  from grid_loop_Inr[OF this, of "replicate (length lines) (replicate n False)" "goal self" "init_pos self"]
  obtain grid g i where
    1: "for_loop (\<lambda>r. for_loop (read_cell lines r) [0..<n]) [0..<length lines]
          (replicate (length lines) (replicate n False), goal self, init_pos self) = Inr (grid, g, i)"
       "map length grid = map length (replicate (length lines) (replicate n False))"
    by blast
  have "read_map self file_lines =
          Inr (self\<lparr>rows := Some (int (length file_lines)), cols := Some (int n),
                   occupancy_grid := Some grid, goal := g, init_pos := i\<rparr>)"
    using ne 1(1) mx unfolding read_map_def lines_def[symmetric] Let_def
    by (simp add: lines_def)
  moreover have "map length grid = replicate (length file_lines) n"
    using 1(2) by (simp add: lines_def)
  ultimately show ?thesis by blast
qed

lemma read_map_Inl:
  assumes "l1 \<in> set file_lines" "l2 \<in> set file_lines" "length (rstrip l1) < length (rstrip l2)"
  shows "read_map self file_lines = Inl IndexError"
proof -
  define lines where "lines = map (\<lambda>l. lower (rstrip l)) file_lines"
  have ne: "lines \<noteq> []" using assms(1) by (auto simp: lines_def)
  obtain r where r: "r < length file_lines" "file_lines ! r = l1"
    using assms(1) by (auto simp: in_set_conv_nth)
  have "length (rstrip l2) \<in> set (map length lines)"
    using assms(2) by (force simp: lines_def lower_def)
  then have "length (rstrip l2) \<le> Max (set (map length lines))" by simp
  moreover have "length (lines ! r) = length (rstrip l1)" using r by (simp add: lines_def lower_def)
  ultimately have "length (lines ! r) < Max (set (map length lines))" using assms(3) by simp
  moreover have "r \<in> set [0..<length lines]" using r by (simp add: lines_def)
  ultimately have "for_loop (\<lambda>r. for_loop (read_cell lines r) [0..<Max (set (map length lines))])
      [0..<length lines] st = Inl IndexError" for st
    using grid_loop_Inl by blast
  then show ?thesis using ne unfolding read_map_def lines_def[symmetric] Let_def by simp
qed

lemma read_map_empty: "read_map self [] = Inl ValueError"
  by (simp add: read_map_def)

lemma keep_last_append: "keep_last (keep_last old xs) ys = keep_last old (xs @ ys)"
  by (simp add: keep_last_def)

lemma read_cell_markers:
  assumes "read_cell lines r c (grid, g, i) = Inr (grid', g', i')"
  shows "g' = keep_last g (row_cells (CHR ''g'') lines r [c])
       \<and> i' = keep_last i (row_cells (CHR ''i'') lines r [c])"
  using assms
  by (auto simp: read_cell_def Let_def keep_last_def row_cells_def split: if_splits)

lemma row_cells_Cons: "row_cells ch lines r (c # cs) = row_cells ch lines r [c] @ row_cells ch lines r cs"
  by (simp add: row_cells_def)

lemma row_loop_markers:
  assumes "for_loop (read_cell lines r) cs (grid, g, i) = Inr (grid', g', i')"
  shows "g' = keep_last g (row_cells (CHR ''g'') lines r cs)
       \<and> i' = keep_last i (row_cells (CHR ''i'') lines r cs)"
  using assms
proof (induction cs arbitrary: grid g i)
  case Nil
  then show ?case by (simp add: keep_last_def row_cells_def)
next
  case (Cons c cs)
  from Cons.prems obtain grid1 g1 i1 where
    1: "read_cell lines r c (grid, g, i) = Inr (grid1, g1, i1)"
    and 2: "for_loop (read_cell lines r) cs (grid1, g1, i1) = Inr (grid', g', i')"
    by (auto split: sum.splits)
  show ?case
    using read_cell_markers[OF 1] Cons.IH[OF 2]
    by (simp add: row_cells_Cons[of _ _ _ c cs] keep_last_append)
qed

lemma grid_loop_markers:
  assumes "for_loop (\<lambda>r. for_loop (read_cell lines r) cs) rs (grid, g, i) = Inr (grid', g', i')"
  shows "g' = keep_last g (concat (map (\<lambda>r. row_cells (CHR ''g'') lines r cs) rs))
       \<and> i' = keep_last i (concat (map (\<lambda>r. row_cells (CHR ''i'') lines r cs) rs))"
  using assms
proof (induction rs arbitrary: grid g i)
  case Nil
  then show ?case by (simp add: keep_last_def)
next
  case (Cons r rs)
  from Cons.prems obtain grid1 g1 i1 where
    1: "for_loop (read_cell lines r) cs (grid, g, i) = Inr (grid1, g1, i1)"
    and 2: "for_loop (\<lambda>r. for_loop (read_cell lines r) cs) rs (grid1, g1, i1) = Inr (grid', g', i')"
    by (auto split: sum.splits)
  show ?case
    using row_loop_markers[OF 1] Cons.IH[OF 2]
    by (simp add: keep_last_append)
qed

lemma read_map_markers:
  assumes "read_map self file_lines = Inr m"
  shows "goal m = keep_last (goal self) (marker_cells (CHR ''g'') file_lines)
       \<and> init_pos m = keep_last (init_pos self) (marker_cells (CHR ''i'') file_lines)"
proof -
  define lines where "lines = map (\<lambda>l. lower (rstrip l)) file_lines"
  define n where "n = Max (set (map length lines))"
  from assms obtain grid g i where
    1: "for_loop (\<lambda>r. for_loop (read_cell lines r) [0..<n]) [0..<length lines]
          (replicate (length lines) (replicate n False), goal self, init_pos self) = Inr (grid, g, i)"
    and m: "goal m = g" "init_pos m = i" and ne: "lines \<noteq> []"
    unfolding read_map_def lines_def[symmetric] Let_def n_def
    by (auto split: if_splits sum.splits simp: lines_def)
  have len: "length (lines ! r) = n" if "r < length lines" for r
  proof (rule ccontr)
    assume a: "length (lines ! r) \<noteq> n"
    have "length (lines ! r) \<in> set (map length lines)" using that by simp
    then have "length (lines ! r) \<le> n" unfolding n_def by simp
    with a have "length (lines ! r) < n" by simp
    moreover have "r \<in> set [0..<length lines]" using that by simp
    ultimately show False using grid_loop_Inl[of r "[0..<length lines]" lines n] 1 by simp
  qed
  have eq: "concat (map (\<lambda>r. row_cells ch lines r [0..<n]) [0..<length lines])
          = marker_cells ch file_lines" for ch
    unfolding marker_cells_def lines_def[symmetric] Let_def
    by (rule arg_cong[where f = concat], rule map_cong) (auto simp: len)
  show ?thesis using grid_loop_markers[OF 1] m by (simp add: eq)
qed

lemma read_map_error:
  assumes "read_map self file_lines = Inl e"
  shows "e = ValueError \<or> e = IndexError"
proof -
  have row: "for_loop (read_cell lines r) cs st = Inl e' \<Longrightarrow> e' = IndexError" for lines r cs st e'
    using for_loop_error[of "read_cell lines r" IndexError] read_cell_error by blast
  have "for_loop (\<lambda>r. for_loop (read_cell lines r) cs) rs st = Inl e' \<Longrightarrow> e' = IndexError"
    for lines cs rs st e'
    using for_loop_error[of "\<lambda>r. for_loop (read_cell lines r) cs" IndexError] row by blast
  then show ?thesis using assms
    unfolding read_map_def Let_def by (auto split: if_splits sum.splits)
qed

lemma grid_ok_shape:
  assumes "map length grid = replicate nr nc"
  shows "grid_ok \<lparr>rows = Some (int nr), cols = Some (int nc), goal = g, init_pos = i,
            occupancy_grid = Some grid\<rparr>"
proof -
  have "length grid = nr" using assms by (metis length_map length_replicate)
  moreover have "list_all (\<lambda>row. length row = nc) grid"
    unfolding list_all_length
  proof (intro allI impI)
    fix k assume "k < length grid"
    then have "map length grid ! k = nc" using assms \<open>length grid = nr\<close> by simp
    then show "length (grid ! k) = nc" using \<open>k < length grid\<close> by simp
  qed
  ultimately show ?thesis by (simp add: grid_ok_def list_all_length)
qed

lemma read_map_grid_ok:
  assumes "read_map self file_lines = Inr m"
  shows "grid_ok m"
proof -
  have ne: "file_lines \<noteq> []" using assms by (auto simp: read_map_def)
  then obtain l0 where l0: "l0 \<in> set file_lines" by (cases file_lines) auto
  have "length (rstrip l) = length (rstrip l0)" if "l \<in> set file_lines" for l
  proof (rule ccontr)
    assume "length (rstrip l) \<noteq> length (rstrip l0)"
    then have "length (rstrip l) < length (rstrip l0) \<or> length (rstrip l0) < length (rstrip l)"
      by auto
    then have "read_map self file_lines = Inl IndexError"
      using read_map_Inl that l0 by blast
    with assms show False by simp
  qed
  then have "\<forall>l \<in> set file_lines. length (rstrip l) = length (rstrip l0)" by blast
  from read_map_Inr[OF ne this, of self] assms obtain grid g i where
    "m = self\<lparr>rows := Some (int (length file_lines)), cols := Some (int (length (rstrip l0))),
                   occupancy_grid := Some grid, goal := g, init_pos := i\<rparr>"
    "map length grid = replicate (length file_lines) (length (rstrip l0))"
    by auto
  then show ?thesis using grid_ok_shape[of grid "length file_lines" "length (rstrip l0)" g i]
    by (cases self) simp
qed

section \<open>Properties of heapq\<close>

subsection \<open>The entries of a heap are kept\<close>

lemma mset_move_hole:
  assumes "i < length xs" "j < length xs" "i \<noteq> j"
  shows "mset (xs[i := xs ! j, j := v]) = mset (xs[i := v])"
  using assms by (simp add: mset_update nth_list_update)

lemma siftdown_loop_mset:
  assumes "siftdown_loop heap startpos newitem pos = Inr heap'" "pos < length heap"
  shows "mset heap' = mset (heap[pos := newitem])"
  using assms
proof (induction heap startpos newitem pos rule: siftdown_loop.induct)
  case (1 heap startpos newitem pos)
  show ?case
  proof (cases "pos > startpos")
    case False
    then show ?thesis using "1.prems" by (simp add: siftdown_loop.simps[of heap])
  next
    case True
    define pp where "pp = (pos - 1) div 2"
    have pp: "pp < pos" using True by (simp add: pp_def)
    from "1.prems"(1) True obtain lt where lt: "entry_lt newitem (heap ! pp) = Inr lt"
      by (subst (asm) siftdown_loop.simps) (auto simp: Let_def pp_def split: sum.splits)
    show ?thesis
    proof (cases lt)
      case False
      then show ?thesis using "1.prems" True lt
        by (subst (asm) siftdown_loop.simps) (simp add: Let_def pp_def)
    next
      case lt_true: True
      have rec: "siftdown_loop (heap[pos := heap ! pp]) startpos newitem pp = Inr heap'"
        using "1.prems"(1) True lt lt_true
        by (subst (asm) siftdown_loop.simps) (simp add: Let_def pp_def)
      have "mset heap' = mset (heap[pos := heap ! pp, pp := newitem])"
        using "1.IH"[OF True pp_def refl lt lt_true rec] pp "1.prems"(2) by simp
      also have "\<dots> = mset (heap[pos := newitem])"
        using mset_move_hole[of pos heap pp newitem] pp "1.prems"(2) by simp
      finally show ?thesis .
    qed
  qed
qed

lemma siftdown_mset:
  assumes "siftdown heap startpos pos = Inr heap'"
  shows "mset heap' = mset heap"
proof -
  from assms have p: "pos < length heap" and
    l: "siftdown_loop heap startpos (heap ! pos) pos = Inr heap'"
    by (auto simp: siftdown_def split: if_splits)
  show ?thesis using siftdown_loop_mset[OF l p] by simp
qed

lemma siftup_loop_mset:
  assumes "siftup_loop heap newitem pos = Inr (heap', pos')" "pos < length heap"
  shows "pos' < length heap' \<and> length heap' = length heap
       \<and> mset (heap'[pos' := v]) = mset (heap[pos := v])"
  using assms
proof (induction heap newitem pos rule: siftup_loop.induct)
  case (1 heap newitem pos)
  show ?case
  proof (cases "2 * pos + 1 < length heap")
    case False
    then show ?thesis using "1.prems" by (subst (asm) siftup_loop.simps) (simp add: Let_def)
  next
    case True
    from "1.prems"(1) True obtain cp where cp: "smaller_child heap (2 * pos + 1) = Inr cp"
      and rec: "siftup_loop (heap[pos := heap ! cp]) newitem cp = Inr (heap', pos')"
      by (subst (asm) siftup_loop.simps) (auto simp: Let_def split: sum.splits)
    have cpb: "cp < length heap" "pos < cp"
      using smaller_child_bounds[OF cp] True by auto
    have "pos' < length heap' \<and> length heap' = length (heap[pos := heap ! cp])
       \<and> mset (heap'[pos' := v]) = mset (heap[pos := heap ! cp, cp := v])"
      using "1.IH"[OF refl True cp rec] cpb by simp
    moreover have "mset (heap[pos := heap ! cp, cp := v]) = mset (heap[pos := v])"
      using mset_move_hole[of pos heap cp v] cpb "1.prems"(2) by simp
    ultimately show ?thesis by simp
  qed
qed

lemma siftup_mset:
  assumes "siftup heap pos = Inr heap'"
  shows "mset heap' = mset heap"
proof -
  from assms obtain h1 p1 where p: "pos < length heap"
    and l: "siftup_loop heap (heap ! pos) pos = Inr (h1, p1)"
    and d: "siftdown (h1[p1 := heap ! pos]) pos p1 = Inr heap'"
    by (auto simp: siftup_def Let_def split: if_splits sum.splits)
  have "mset heap' = mset (h1[p1 := heap ! pos])" using siftdown_mset[OF d] .
  also have "\<dots> = mset (heap[pos := heap ! pos])" using siftup_loop_mset[OF l p] by simp
  finally show ?thesis by simp
qed

lemma heapify_loop_mset:
  assumes "heapify_loop is heap = Inr heap'"
  shows "mset heap' = mset heap"
  using assms
proof (induction "is" arbitrary: heap)
  case Nil
  then show ?case by simp
next
  case (Cons i "is")
  then obtain h1 where 1: "siftup heap i = Inr h1"
    and 2: "heapify_loop is h1 = Inr heap'"
    by (auto split: sum.splits)
  show ?case using Cons.IH[OF 2] siftup_mset[OF 1] by simp
qed

lemma heapify_mset: "heapify x = Inr heap' \<Longrightarrow> mset heap' = mset x"
  unfolding heapify_def by (rule heapify_loop_mset)

lemma heappush_mset: "heappush heap item = Inr heap' \<Longrightarrow> mset heap' = add_mset item (mset heap)"
  unfolding heappush_def using siftdown_mset by fastforce

lemma heappop_mset:
  assumes "heappop heap = Inr (x, heap')"
  shows "mset heap = add_mset x (mset heap')"
proof -
  have ne: "heap \<noteq> []" using assms by (auto simp: heappop_def)
  then obtain ys z where heap: "heap = ys @ [z]" by (cases heap rule: rev_cases) auto
  show ?thesis
  proof (cases ys)
    case Nil
    then show ?thesis using assms heap by (simp add: heappop_def)
  next
    case (Cons y ys')
    then have x: "x = y" and s: "siftup (z # ys') 0 = Inr heap'"
      using assms heap by (auto simp: heappop_def Let_def split: sum.splits)
    show ?thesis using siftup_mset[OF s] x heap Cons by simp
  qed
qed

subsection \<open>No comparison fails when the costs differ\<close>

lemma entry_lt_Inr:
  assumes "inj_on fst S" "a \<in> S" "b \<in> S"
  shows "\<exists>lt. entry_lt a b = Inr lt"
  using assms by (auto simp: entry_lt_def dest: inj_onD)

lemma siftdown_loop_Inr:
  assumes "inj_on fst S" "set heap \<subseteq> S" "newitem \<in> S" "pos < length heap"
  shows "\<exists>heap'. siftdown_loop heap startpos newitem pos = Inr heap'"
  using assms(2-)
proof (induction heap startpos newitem pos rule: siftdown_loop.induct)
  case (1 heap startpos newitem pos)
  show ?case
  proof (cases "pos > startpos")
    case False
    then show ?thesis by (simp add: siftdown_loop.simps[of heap])
  next
    case True
    define pp where "pp = (pos - 1) div 2"
    have pp: "pp < pos" using True by (simp add: pp_def)
    then have par: "heap ! pp \<in> S" using "1.prems" by (meson nth_mem order.strict_trans subsetD)
    from entry_lt_Inr[OF assms(1) "1.prems"(2) par]
    obtain lt where lt: "entry_lt newitem (heap ! pp) = Inr lt" by blast
    show ?thesis
    proof (cases lt)
      case False
      then show ?thesis using True lt
        by (subst siftdown_loop.simps) (simp add: Let_def pp_def)
    next
      case lt_true: True
      have "set (heap[pos := heap ! pp]) \<subseteq> S"
        using "1.prems"(1) par by (rule set_update_subsetI)
      then have "\<exists>heap'. siftdown_loop (heap[pos := heap ! pp]) startpos newitem pp = Inr heap'"
        using "1.IH"[OF True pp_def refl lt lt_true] "1.prems"(2,3) pp by simp
      then show ?thesis using True lt lt_true
        by (subst siftdown_loop.simps) (simp add: Let_def pp_def)
    qed
  qed
qed

lemma siftdown_Inr:
  assumes "inj_on fst S" "set heap \<subseteq> S" "pos < length heap"
  shows "\<exists>heap'. siftdown heap startpos pos = Inr heap'"
proof -
  have "heap ! pos \<in> S" using assms(2,3) by (meson nth_mem subsetD)
  from siftdown_loop_Inr[OF assms(1,2) this assms(3)] show ?thesis
    using assms(3) by (simp add: siftdown_def)
qed

lemma smaller_child_Inr:
  assumes "inj_on fst S" "set heap \<subseteq> S" "childpos < length heap"
  shows "\<exists>cp. smaller_child heap childpos = Inr cp"
proof (cases "childpos + 1 < length heap")
  case False
  then show ?thesis by (simp add: smaller_child_def)
next
  case True
  have "heap ! childpos \<in> S" "heap ! (childpos + 1) \<in> S"
    using assms(2,3) True by (meson nth_mem subsetD)+
  from entry_lt_Inr[OF assms(1) this] show ?thesis using True
    by (auto simp: smaller_child_def)
qed

lemma siftup_loop_Inr:
  assumes "inj_on fst S" "set heap \<subseteq> S" "pos < length heap"
  shows "\<exists>heap' pos'. siftup_loop heap newitem pos = Inr (heap', pos') \<and> set heap' \<subseteq> S"
  using assms(2-)
proof (induction heap newitem pos rule: siftup_loop.induct)
  case (1 heap newitem pos)
  show ?case
  proof (cases "2 * pos + 1 < length heap")
    case False
    then show ?thesis using "1.prems" by (subst siftup_loop.simps) (simp add: Let_def)
  next
    case True
    from smaller_child_Inr[OF assms(1) "1.prems"(1) True]
    obtain cp where cp: "smaller_child heap (2 * pos + 1) = Inr cp" by blast
    have cpb: "cp < length heap" using smaller_child_bounds[OF cp] True by auto
    then have "heap ! cp \<in> S" using "1.prems"(1) by (meson nth_mem subsetD)
    then have "set (heap[pos := heap ! cp]) \<subseteq> S"
      using "1.prems"(1) by (simp add: set_update_subsetI)
    then have "\<exists>heap' pos'. siftup_loop (heap[pos := heap ! cp]) newitem cp = Inr (heap', pos') \<and> set heap' \<subseteq> S"
      using "1.IH"[OF refl True cp] cpb by simp
    then show ?thesis using True cp
      by (subst siftup_loop.simps) (simp add: Let_def)
  qed
qed

lemma siftup_Inr:
  assumes "inj_on fst S" "set heap \<subseteq> S" "pos < length heap"
  shows "\<exists>heap'. siftup heap pos = Inr heap'"
proof -
  from siftup_loop_Inr[OF assms] obtain h1 p1 where
    l: "siftup_loop heap (heap ! pos) pos = Inr (h1, p1)" and s: "set h1 \<subseteq> S" by blast
  have p1: "p1 < length h1" using siftup_loop_mset[OF l assms(3), of "heap ! pos"] by simp
  have "heap ! pos \<in> S" using assms(2,3) by (meson nth_mem subsetD)
  then have "set (h1[p1 := heap ! pos]) \<subseteq> S" using s by (simp add: set_update_subsetI)
  from siftdown_Inr[OF assms(1) this, of p1 pos] p1 obtain h2 where
    "siftdown (h1[p1 := heap ! pos]) pos p1 = Inr h2" by auto
  then show ?thesis using l assms(3) by (simp add: siftup_def)
qed

lemma heapify_loop_Inr:
  assumes "inj_on fst (set heap)" "\<forall>i \<in> set is. i < length heap"
  shows "\<exists>heap'. heapify_loop is heap = Inr heap'"
  using assms
proof (induction "is" arbitrary: heap)
  case Nil
  then show ?case by simp
next
  case (Cons i "is")
  from siftup_Inr[OF Cons.prems(1) subset_refl, of i] Cons.prems(2)
  obtain h1 where 1: "siftup heap i = Inr h1" by auto
  have m: "mset h1 = mset heap" using siftup_mset[OF 1] .
  then have "set h1 = set heap" "length h1 = length heap"
    by (metis set_mset_mset, metis size_mset)
  then have "\<exists>heap'. heapify_loop is h1 = Inr heap'"
    using Cons.IH[of h1] Cons.prems by simp
  then show ?case using 1 by simp
qed

lemma heapify_Inr:
  assumes "inj_on fst (set x)"
  shows "\<exists>heap'. heapify x = Inr heap'"
  unfolding heapify_def
  by (rule heapify_loop_Inr[OF assms]) auto

lemma heappush_Inr:
  assumes "inj_on fst (insert item (set heap))"
  shows "\<exists>heap'. heappush heap item = Inr heap'"
  unfolding heappush_def
  using siftdown_Inr[of "insert item (set heap)" "heap @ [item]" "length heap" 0] assms
  by auto

lemma heappop_Inr:
  assumes "inj_on fst (set heap)" "heap \<noteq> []"
  shows "\<exists>x heap'. heappop heap = Inr (x, heap')"
proof -
  from assms(2) obtain ys z where heap: "heap = ys @ [z]" by (cases heap rule: rev_cases) auto
  show ?thesis
  proof (cases ys)
    case Nil
    then show ?thesis using heap by (simp add: heappop_def)
  next
    case (Cons y ys')
    have "set (z # ys') \<subseteq> set heap" using heap Cons by auto
    from siftup_Inr[OF assms(1) this, of 0] obtain h where "siftup (z # ys') 0 = Inr h" by auto
    then show ?thesis using heap Cons by (simp add: heappop_def Let_def)
  qed
qed

subsection \<open>The heap order\<close>

lemma under_le: "under k p \<Longrightarrow> k \<le> p"
  by (induction rule: under.induct) auto

lemma under_parent:
  assumes "under k p" "k < p"
  shows "under k ((p - 1) div 2)"
  using assms by (cases rule: under.cases) auto

lemma entry_lt_True: "entry_lt a b = Inr True \<Longrightarrow> fst a < fst b"
  by (auto simp: entry_lt_def split: if_splits)

lemma entry_lt_False: "entry_lt a b = Inr False \<Longrightarrow> fst b \<le> fst a"
  by (auto simp: entry_lt_def split: if_splits)

lemma heap_above_mono: "heap_above h k \<Longrightarrow> k \<le> k' \<Longrightarrow> heap_above h k'"
  by (auto simp: heap_above_def)

lemma hole_ok_step:
  assumes ok: "hole_ok h k x pos" and kp: "k < pos" and len: "pos < length h"
    and un: "under k pos" and lt: "fst x < fst (h ! ((pos - 1) div 2))"
  shows "hole_ok (h[pos := h ! ((pos - 1) div 2)]) k x ((pos - 1) div 2)"
proof -
  define pp where "pp = (pos - 1) div 2"
  define h1 where "h1 = h[pos := h ! pp]"
  have pp: "pp < pos" using kp by (simp add: pp_def)
  have kpp: "k \<le> pp" using under_le[OF under_parent[OF un kp]] by (simp add: pp_def)
  have ok1: "fst (h ! ((c - 1) div 2)) \<le> fst (h ! c)"
    if "0 < c" "c < length h" "k \<le> (c - 1) div 2" "c \<noteq> pos" "(c - 1) div 2 \<noteq> pos" for c
    using ok that by (simp add: hole_ok_def)
  have ok2: "fst (h ! pp) \<le> fst (h ! c)" if "0 < c" "c < length h" "(c - 1) div 2 = pos" for c
    using ok that kp by (simp add: hole_ok_def pp_def)
  have part1: "fst (h1 ! ((c - 1) div 2)) \<le> fst (h1 ! c)"
    if c: "0 < c" "c < length h" "k \<le> (c - 1) div 2" "c \<noteq> pp" "(c - 1) div 2 \<noteq> pp" for c
  proof -
    have cpos: "c \<noteq> pos" using c(5) by (auto simp: pp_def)
    show ?thesis
    proof (cases "(c - 1) div 2 = pos")
      case True
      then show ?thesis using ok2[OF c(1,2) True] cpos len by (simp add: h1_def)
    next
      case False
      then show ?thesis using ok1[OF c(1,2,3) cpos False] cpos by (simp add: h1_def)
    qed
  qed
  have part2: "fst x \<le> fst (h1 ! c) \<and> (k < pp \<longrightarrow> fst (h1 ! ((pp - 1) div 2)) \<le> fst (h1 ! c))"
    if c: "0 < c" "c < length h" "(c - 1) div 2 = pp" for c
  proof -
    have gp: "fst (h ! ((pp - 1) div 2)) \<le> fst (h ! pp)" if "k < pp"
    proof -
      have "k \<le> (pp - 1) div 2"
        using under_le[OF under_parent[OF under_parent[OF un kp, folded pp_def] that]] .
      moreover have "(pp - 1) div 2 \<noteq> pos" "pp \<noteq> pos" "0 < pp" "pp < length h"
        using pp that len by auto
      ultimately show ?thesis using ok1[of pp] by simp
    qed
    have gpn: "(pp - 1) div 2 \<noteq> pos" using pp by auto
    show ?thesis
    proof (cases "c = pos")
      case True
      then show ?thesis using lt gp len gpn by (simp add: h1_def pp_def)
    next
      case False
      have "fst (h ! pp) \<le> fst (h ! c)"
        using ok1[OF c(1,2) _ False] c(3) kpp pp by auto
      then show ?thesis using False lt gp gpn by (auto simp: h1_def pp_def)
    qed
  qed
  show ?thesis
    unfolding hole_ok_def pp_def[symmetric] h1_def[symmetric]
    using part1 part2 by (simp add: h1_def)
qed

lemma hole_ok_fill:
  assumes ok: "hole_ok h k x pos" and len: "pos < length h"
    and stop: "pos \<le> k \<or> fst (h ! ((pos - 1) div 2)) \<le> fst x"
  shows "heap_above (h[pos := x]) k"
  unfolding heap_above_def
proof (intro allI impI)
  fix c
  assume c: "0 < c \<and> c < length (h[pos := x]) \<and> k \<le> (c - 1) div 2"
  then have c': "0 < c" "c < length h" "k \<le> (c - 1) div 2" by auto
  have parlt: "(c - 1) div 2 < c" using c' by auto
  show "fst (h[pos := x] ! ((c - 1) div 2)) \<le> fst (h[pos := x] ! c)"
  proof (cases "c = pos")
    case True
    then have "\<not> pos \<le> k" using c' parlt by auto
    then have "fst (h ! ((pos - 1) div 2)) \<le> fst x" using stop by simp
    then show ?thesis using True parlt len by simp
  next
    case False
    show ?thesis
    proof (cases "(c - 1) div 2 = pos")
      case True
      then show ?thesis using ok c' False len by (simp add: hole_ok_def)
    next
      case par: False
      then show ?thesis using ok c' False by (simp add: hole_ok_def)
    qed
  qed
qed

lemma siftdown_loop_heap:
  assumes "siftdown_loop h k x pos = Inr h'" "hole_ok h k x pos" "under k pos" "pos < length h"
  shows "heap_above h' k"
  using assms
proof (induction h k x pos rule: siftdown_loop.induct)
  case (1 heap startpos newitem pos)
  show ?case
  proof (cases "pos > startpos")
    case False
    then have "heap' = heap[pos := newitem]" if "siftdown_loop heap startpos newitem pos = Inr heap'" for heap'
      using that by (subst (asm) siftdown_loop.simps) simp
    then show ?thesis using hole_ok_fill[OF "1.prems"(2,4)] False "1.prems"(1) by simp
  next
    case True
    define pp where "pp = (pos - 1) div 2"
    have pp: "pp < pos" using True by (simp add: pp_def)
    from "1.prems"(1) True obtain lt where lt: "entry_lt newitem (heap ! pp) = Inr lt"
      by (subst (asm) siftdown_loop.simps) (auto simp: Let_def pp_def split: sum.splits)
    show ?thesis
    proof (cases lt)
      case False
      then have "h' = heap[pos := newitem]" using "1.prems"(1) True lt
        by (subst (asm) siftdown_loop.simps) (simp add: Let_def pp_def)
      moreover have "fst (heap ! pp) \<le> fst newitem" using entry_lt_False lt False by simp
      ultimately show ?thesis using hole_ok_fill[OF "1.prems"(2,4)] by (simp add: pp_def)
    next
      case lt_true: True
      have rec: "siftdown_loop (heap[pos := heap ! pp]) startpos newitem pp = Inr h'"
        using "1.prems"(1) True lt lt_true
        by (subst (asm) siftdown_loop.simps) (simp add: Let_def pp_def)
      have "fst newitem < fst (heap ! pp)" using entry_lt_True lt lt_true by simp
      then have "hole_ok (heap[pos := heap ! pp]) startpos newitem pp"
        using hole_ok_step[OF "1.prems"(2) True "1.prems"(4,3)] by (simp add: pp_def)
      moreover have "under startpos pp" using under_parent[OF "1.prems"(3) True] by (simp add: pp_def)
      ultimately show ?thesis
        using "1.IH"[OF True pp_def refl lt lt_true rec] pp "1.prems"(4) by simp
    qed
  qed
qed

lemma smaller_child_least:
  assumes "smaller_child h (2 * pos + 1) = Inr cp" "2 * pos + 1 < length h"
  shows "(cp - 1) div 2 = pos \<and> 0 < cp \<and> cp < length h
       \<and> (\<forall>c. 0 < c \<and> c < length h \<and> (c - 1) div 2 = pos \<longrightarrow> fst (h ! cp) \<le> fst (h ! c))"
proof -
  have ch: "c = 2 * pos + 1 \<or> c = 2 * pos + 2" if "0 < c" "(c - 1) div 2 = pos" for c
    using that by auto
  have "fst (h ! cp) \<le> fst (h ! c) \<and> (cp = 2 * pos + 1 \<or> cp = 2 * pos + 2 \<and> cp < length h)"
    if c: "c = 2 * pos + 1 \<or> c = 2 * pos + 2" "c < length h" for c
  proof (cases "2 * pos + 2 < length h")
    case False
    then have "cp = 2 * pos + 1" using assms by (simp add: smaller_child_def)
    moreover have "c = 2 * pos + 1" using c False by auto
    ultimately show ?thesis by simp
  next
    case True
    then obtain lt where lt: "entry_lt (h ! (2 * pos + 1)) (h ! (2 * pos + 2)) = Inr lt"
      and cp: "cp = (if \<not> lt then 2 * pos + 2 else 2 * pos + 1)"
      using assms by (auto simp: smaller_child_def Let_def split: sum.splits)
    show ?thesis
    proof (cases lt)
      case lt_true: True
      then have "fst (h ! (2 * pos + 1)) < fst (h ! (2 * pos + 2))" using lt entry_lt_True by simp
      then show ?thesis using cp lt_true c by auto
    next
      case False
      then have "fst (h ! (2 * pos + 2)) \<le> fst (h ! (2 * pos + 1))" using lt entry_lt_False by simp
      then show ?thesis using cp False True c by auto
    qed
  qed
  note main = this
  have "cp = 2 * pos + 1 \<or> cp = 2 * pos + 2 \<and> cp < length h"
    using main[of "2 * pos + 1"] assms(2) by simp
  moreover have "fst (h ! cp) \<le> fst (h ! c)" if "0 < c" "c < length h" "(c - 1) div 2 = pos" for c
    using main[OF ch[OF that(1,3)] that(2)] by simp
  ultimately show ?thesis using assms(2) by auto
qed

lemma siftup_step_heap:
  assumes inv: "if k < pos then heap_above h k else heap_above h (Suc k)"
    and kp: "k \<le> pos" and len: "pos < length h"
    and cp: "(cp - 1) div 2 = pos" "0 < cp" "cp < length h"
      "\<forall>c. 0 < c \<and> c < length h \<and> (c - 1) div 2 = pos \<longrightarrow> fst (h ! cp) \<le> fst (h ! c)"
  shows "heap_above (h[pos := h ! cp]) k"
  unfolding heap_above_def
proof (intro allI impI)
  fix c
  assume "0 < c \<and> c < length (h[pos := h ! cp]) \<and> k \<le> (c - 1) div 2"
  then have c: "0 < c" "c < length h" "k \<le> (c - 1) div 2" by auto
  have parlt: "(c - 1) div 2 < c" using c by auto
  show "fst (h[pos := h ! cp] ! ((c - 1) div 2)) \<le> fst (h[pos := h ! cp] ! c)"
  proof (cases "(c - 1) div 2 = pos")
    case True
    then show ?thesis using cp(4) c len parlt by simp
  next
    case False
    show ?thesis
    proof (cases "c = pos")
      case True
      then have "k < pos" using c parlt by simp
      then have ha: "heap_above h k" using inv by simp
      have "fst (h ! ((pos - 1) div 2)) \<le> fst (h ! pos)"
        using ha c True by (simp add: heap_above_def)
      moreover have "fst (h ! pos) \<le> fst (h ! cp)"
        using ha cp kp by (auto simp: heap_above_def)
      ultimately show ?thesis using True False len by simp
    next
      case cn: False
      have "fst (h ! ((c - 1) div 2)) \<le> fst (h ! c)"
      proof (cases "k < pos")
        case True
        then show ?thesis using inv c by (simp add: heap_above_def)
      next
        case kn: False
        then have "Suc k \<le> (c - 1) div 2" using c(3) False kp by simp
        then show ?thesis using inv kn c by (simp add: heap_above_def)
      qed
      then show ?thesis using False cn by simp
    qed
  qed
qed

lemma siftup_loop_heap:
  assumes "siftup_loop h x pos = Inr (h', pos')"
    "if k < pos then heap_above h k else heap_above h (Suc k)" "under k pos" "pos < length h"
  shows "(if k < pos' then heap_above h' k else heap_above h' (Suc k))
       \<and> under k pos' \<and> length h' \<le> 2 * pos' + 1"
  using assms
proof (induction h x pos rule: siftup_loop.induct)
  case (1 heap newitem pos)
  show ?case
  proof (cases "2 * pos + 1 < length heap")
    case False
    then show ?thesis using "1.prems" by (subst (asm) siftup_loop.simps) (auto simp: Let_def)
  next
    case True
    from "1.prems"(1) True obtain cp where cp: "smaller_child heap (2 * pos + 1) = Inr cp"
      and rec: "siftup_loop (heap[pos := heap ! cp]) newitem cp = Inr (h', pos')"
      by (subst (asm) siftup_loop.simps) (auto simp: Let_def split: sum.splits)
    note sc = smaller_child_least[OF cp True]
    have kp: "k \<le> pos" using under_le[OF "1.prems"(3)] .
    have ha: "heap_above (heap[pos := heap ! cp]) k"
      using siftup_step_heap[OF "1.prems"(2) kp "1.prems"(4)] sc by blast
    have cpch: "cp = 2 * pos + 1 \<or> cp = 2 * pos + 2" using sc by auto
    then have un: "under k cp" using "1.prems"(3) under_left under_right by auto
    have kcp: "k < cp" using kp cpch by auto
    show ?thesis
      using "1.IH"[OF refl True cp rec _ un] ha kcp sc by simp
  qed
qed

lemma siftup_heap:
  assumes "siftup h k = Inr h'" "heap_above h (Suc k)"
  shows "heap_above h' k"
proof -
  from assms(1) obtain h1 p1 where p: "k < length h"
    and l: "siftup_loop h (h ! k) k = Inr (h1, p1)"
    and d: "siftdown_loop (h1[p1 := h ! k]) k (h ! k) p1 = Inr h'"
    and p1: "p1 < length h1"
    by (auto simp: siftup_def siftdown_def Let_def split: if_splits sum.splits)
  have inv: "if k < k then heap_above h k else heap_above h (Suc k)" using assms(2) by simp
  from siftup_loop_heap[OF l inv under_self p]
  have 1: "if k < p1 then heap_above h1 k else heap_above h1 (Suc k)"
    and 2: "under k p1" and 3: "length h1 \<le> 2 * p1 + 1" by auto
  have leaf: "(c - 1) div 2 \<noteq> p1" if "0 < c" "c < length h1" for c
    using that 3 by auto
  have "hole_ok (h1[p1 := h ! k]) k (h ! k) p1"
    unfolding hole_ok_def
  proof (intro conjI allI impI)
    fix c
    assume c: "0 < c \<and> c < length (h1[p1 := h ! k]) \<and> k \<le> (c - 1) div 2 \<and> c \<noteq> p1 \<and> (c - 1) div 2 \<noteq> p1"
    have "fst (h1 ! ((c - 1) div 2)) \<le> fst (h1 ! c)"
    proof (cases "k < p1")
      case True
      then show ?thesis using 1 c by (simp add: heap_above_def)
    next
      case False
      then have "p1 = k" using under_le[OF 2] by simp
      then have "Suc k \<le> (c - 1) div 2" using c by auto
      then show ?thesis using 1 False c by (simp add: heap_above_def)
    qed
    then show "fst (h1[p1 := h ! k] ! ((c - 1) div 2)) \<le> fst (h1[p1 := h ! k] ! c)"
      using c by simp
  next
    fix c
    assume "0 < c \<and> c < length (h1[p1 := h ! k]) \<and> (c - 1) div 2 = p1"
    then have False using leaf[of c] by simp
    then show "fst (h ! k) \<le> fst (h1[p1 := h ! k] ! c)" ..
  next
    fix c
    assume "0 < c \<and> c < length (h1[p1 := h ! k]) \<and> (c - 1) div 2 = p1"
    then have False using leaf[of c] by simp
    then show "fst (h1[p1 := h ! k] ! ((p1 - 1) div 2)) \<le> fst (h1[p1 := h ! k] ! c)" ..
  qed
  from siftdown_loop_heap[OF d this 2] p1 show ?thesis by simp
qed

lemma heap_above_half: "heap_above h (length h div 2)"
  unfolding heap_above_def
proof (intro allI impI)
  fix c assume "0 < c \<and> c < length h \<and> length h div 2 \<le> (c - 1) div 2"
  then have False by presburger
  then show "fst (h ! ((c - 1) div 2)) \<le> fst (h ! c)" ..
qed

lemma heapify_loop_heap:
  assumes "heapify_loop (rev [0..<m]) h = Inr h'" "heap_above h m"
  shows "heap_above h' 0"
  using assms
proof (induction m arbitrary: h)
  case 0
  then show ?case by simp
next
  case (Suc m)
  from Suc.prems(1) obtain h1 where 1: "siftup h m = Inr h1"
    and 2: "heapify_loop (rev [0..<m]) h1 = Inr h'"
    by (auto split: sum.splits)
  show ?case using Suc.IH[OF 2 siftup_heap[OF 1 Suc.prems(2)]] .
qed

lemma heapify_heap: "heapify x = Inr h' \<Longrightarrow> heap_above h' 0"
  unfolding heapify_def using heapify_loop_heap heap_above_half by blast

lemma heappush_heap:
  assumes "heappush h item = Inr h'" "heap_above h 0"
  shows "heap_above h' 0"
proof -
  have d: "siftdown_loop (h @ [item]) 0 item (length h) = Inr h'"
    using assms(1) by (simp add: heappush_def siftdown_def)
  have un: "under 0 p" for p
  proof (induction p rule: less_induct)
    case (less p)
    show ?case
    proof (cases "p = 0")
      case True
      then show ?thesis by (simp add: under_self)
    next
      case False
      then have "under 0 ((p - 1) div 2)" using less[of "(p - 1) div 2"] by simp
      moreover have "p = 2 * ((p - 1) div 2) + 1 \<or> p = 2 * ((p - 1) div 2) + 2"
        using False by presburger
      ultimately show ?thesis using under_left under_right by metis
    qed
  qed
  have "hole_ok (h @ [item]) 0 item (length h)"
    unfolding hole_ok_def
  proof (intro conjI allI impI)
    fix c
    assume c: "0 < c \<and> c < length (h @ [item]) \<and> 0 \<le> (c - 1) div 2 \<and> c \<noteq> length h
        \<and> (c - 1) div 2 \<noteq> length h"
    then have "c < length h" "(c - 1) div 2 < length h" by auto
    then show "fst ((h @ [item]) ! ((c - 1) div 2)) \<le> fst ((h @ [item]) ! c)"
      using assms(2) c by (simp add: heap_above_def nth_append)
  next
    fix c
    assume "0 < c \<and> c < length (h @ [item]) \<and> (c - 1) div 2 = length h"
    then have False by auto
    then show "fst item \<le> fst ((h @ [item]) ! c)" ..
  next
    fix c
    assume "0 < c \<and> c < length (h @ [item]) \<and> (c - 1) div 2 = length h"
    then have False by auto
    then show "fst ((h @ [item]) ! ((length h - 1) div 2)) \<le> fst ((h @ [item]) ! c)" ..
  qed
  from siftdown_loop_heap[OF d this un] show ?thesis by simp
qed

lemma heap_above_root:
  assumes "heap_above h 0" "i < length h"
  shows "fst (h ! 0) \<le> fst (h ! i)"
  using assms(2)
proof (induction i rule: less_induct)
  case (less i)
  show ?case
  proof (cases "i = 0")
    case True
    then show ?thesis by simp
  next
    case False
    then have "(i - 1) div 2 < i" by auto
    then have "fst (h ! 0) \<le> fst (h ! ((i - 1) div 2))" using less by simp
    moreover have "fst (h ! ((i - 1) div 2)) \<le> fst (h ! i)"
      using assms(1) less.prems False by (simp add: heap_above_def)
    ultimately show ?thesis by simp
  qed
qed

lemma nth_last_to_front:
  "0 < i \<Longrightarrow> i < Suc (length ys) \<Longrightarrow> (y # ys @ [z]) ! i = (z # ys) ! i"
  by (cases i) (auto simp: nth_append)

lemma heappop_heap:
  assumes "heappop h = Inr (x, h')" "heap_above h 0"
  shows "heap_above h' 0 \<and> x = h ! 0"
proof -
  have ne: "h \<noteq> []" using assms by (auto simp: heappop_def)
  then obtain ys z where h: "h = ys @ [z]" by (cases h rule: rev_cases) auto
  show ?thesis
  proof (cases ys)
    case Nil
    then show ?thesis using assms h by (simp add: heappop_def heap_above_def)
  next
    case (Cons y ys')
    then have x: "x = y" and s: "siftup (z # ys') 0 = Inr h'"
      using assms h by (auto simp: heappop_def Let_def split: sum.splits)
    have h': "h = y # ys' @ [z]" using h Cons by simp
    have "heap_above (z # ys') (Suc 0)"
      unfolding heap_above_def
    proof (intro allI impI)
      fix c
      assume c: "0 < c \<and> c < length (z # ys') \<and> Suc 0 \<le> (c - 1) div 2"
      then have "c < length h" using h' by simp
      then have "fst (h ! ((c - 1) div 2)) \<le> fst (h ! c)"
        using assms(2) c unfolding heap_above_def by blast
      moreover have "h ! c = (z # ys') ! c"
        unfolding h' using c by (intro nth_last_to_front) auto
      moreover have "h ! ((c - 1) div 2) = (z # ys') ! ((c - 1) div 2)"
        unfolding h' using c by (intro nth_last_to_front) auto
      ultimately show "fst ((z # ys') ! ((c - 1) div 2)) \<le> fst ((z # ys') ! c)" by simp
    qed
    from siftup_heap[OF s this] x h' show ?thesis by simp
  qed
qed

section \<open>Properties of PriorityQ\<close>

lemma pq_inv_mset:
  assumes "pq_inv q" "mset (pq_l q') = mset (pq_l q)" "pq_s q' = pq_s q"
  shows "pq_inv q'"
proof -
  have m: "mset (map (\<lambda>y. state (snd y)) (pq_l q')) = mset (map (\<lambda>y. state (snd y)) (pq_l q))"
    using assms(2) by simp
  have "distinct (map (\<lambda>y. state (snd y)) (pq_l q')) = distinct (map (\<lambda>y. state (snd y)) (pq_l q))"
    using m by (rule mset_eq_imp_distinct_iff)
  moreover have "set (map (\<lambda>y. state (snd y)) (pq_l q')) = set (map (\<lambda>y. state (snd y)) (pq_l q))"
    using m by (rule mset_eq_setD)
  ultimately show ?thesis using assms(1,3) by (simp add: pq_inv_def)
qed

lemma pq_inv_add:
  assumes "pq_inv q" "mset (pq_l q') = add_mset (c, x) (mset (pq_l q))" "state x \<notin> pq_s q"
    "pq_s q' = insert (state x) (pq_s q)"
  shows "pq_inv q'"
proof -
  have "pq_inv \<lparr>pq_l = (c, x) # pq_l q, pq_s = insert (state x) (pq_s q)\<rparr>"
    using assms(1,3) by (auto simp: pq_inv_def)
  then show ?thesis by (rule pq_inv_mset) (simp_all add: assms(2,4))
qed

lemma find_state_None:
  assumes "pq_inv q" "find (\<lambda>y. state x = state (snd y)) (pq_l q) = None"
  shows "state x \<notin> pq_s q"
proof
  assume "state x \<in> pq_s q"
  then obtain e where "e \<in> set (pq_l q)" "state x = state (snd e)"
    using assms(1) by (auto simp: pq_inv_def)
  then show False using assms(2) unfolding find_None_iff by blast
qed

lemma find_state_unique:
  assumes "distinct (map (\<lambda>y. state (snd y)) l)" "e \<in> set l" "state (snd e) = state x"
  shows "find (\<lambda>y. state x = state (snd y)) l = Some e"
  using assms
proof (induction l)
  case Nil
  then show ?case by simp
next
  case (Cons a l)
  show ?case
  proof (cases "a = e")
    case True
    then show ?thesis using Cons.prems by simp
  next
    case False
    then have "e \<in> set l" using Cons.prems by simp
    then have "state (snd a) \<noteq> state (snd e)" using Cons.prems(1) by force
    then show ?thesis using Cons \<open>e \<in> set l\<close> by simp
  qed
qed

lemma pq_inv_remove1:
  assumes "pq_inv q" "e \<in> set (pq_l q)"
    "pq_l q' = remove1 e (pq_l q)" "pq_s q' = pq_s q - {state (snd e)}"
  shows "pq_inv q'"
proof -
  let ?f = "\<lambda>y. state (snd y)"
  have d: "distinct (map ?f (pq_l q))" and s: "pq_s q = ?f ` set (pq_l q)"
    using assms(1) by (auto simp: pq_inv_def)
  have dl: "distinct (pq_l q)" and inj: "inj_on ?f (set (pq_l q))"
    using d by (auto simp: distinct_map)
  have "inj_on ?f (set (remove1 e (pq_l q)))"
    using inj by (rule inj_on_subset) (rule set_remove1_subset)
  then have "distinct (map ?f (remove1 e (pq_l q)))"
    using dl by (simp add: distinct_map)
  moreover have "?f ` set (remove1 e (pq_l q)) = ?f ` set (pq_l q) - {?f e}"
    using dl assms(2) inj_on_image_set_diff[OF inj, of "set (pq_l q)" "{e}"]
    by simp
  ultimately show ?thesis using s assms(3,4) by (simp add: pq_inv_def)
qed

lemma replace_remove_inv:
  assumes "pq_inv q"
  shows "\<exists>q'. replace_remove q x = Inr q' \<and> pq_inv q' \<and> state x \<notin> pq_s q'
           \<and> (\<forall>e \<in> set (pq_l q). state (snd e) = state x \<longrightarrow>
                 pq_l q' = remove1 e (pq_l q) \<and> pq_s q' = pq_s q - {state x})
           \<and> (state x \<notin> pq_s q \<longrightarrow> q' = q)"
proof (cases "find (\<lambda>y. state x = state (snd y)) (pq_l q)")
  case None
  then have 1: "state x \<notin> pq_s q" using find_state_None[OF assms] by simp
  have 2: "\<forall>e \<in> set (pq_l q). state (snd e) \<noteq> state x"
    using None unfolding find_None_iff by metis
  have "replace_remove q x = Inr q" using None by (simp add: replace_remove_def)
  then show ?thesis using 1 2 assms by simp
next
  case (Some y)
  then have y: "y \<in> set (pq_l q)" "state (snd y) = state x"
    unfolding find_Some_iff by (metis nth_mem, metis)
  have uniq: "e = y" if "e \<in> set (pq_l q)" "state (snd e) = state x" for e
    using find_state_unique[OF _ that] assms Some by (simp add: pq_inv_def)
  have ins: "state (snd y) \<in> pq_s q" using y(1) assms by (simp add: pq_inv_def)
  define q1 where "q1 = \<lparr>pq_l = remove1 y (pq_l q), pq_s = pq_s q - {state (snd y)}\<rparr>"
  have r: "replace_remove q x = Inr q1"
    using Some ins by (simp add: replace_remove_def set_remove_def q1_def)
  have inv: "pq_inv q1"
    by (rule pq_inv_remove1[OF assms y(1)]) (simp_all add: q1_def)
  have 1: "state x \<notin> pq_s q1" using y(2) by (simp add: q1_def)
  have 2: "\<forall>e \<in> set (pq_l q). state (snd e) = state x \<longrightarrow>
                 pq_l q1 = remove1 e (pq_l q) \<and> pq_s q1 = pq_s q - {state x}"
    using uniq y(2) by (auto simp: q1_def)
  have 3: "state x \<notin> pq_s q \<longrightarrow> q1 = q" using ins y(2) by simp
  show ?thesis using r inv 1 2 3 by blast
qed

lemma push_fresh:
  assumes "state x \<notin> pq_s q"
  shows "push q x c =
     Some (case heappush (pq_l q) (c, x) of
             Inl r \<Rightarrow> Inl (fst r, q\<lparr>pq_l := snd r\<rparr>)
           | Inr heap \<Rightarrow> Inr \<lparr>pq_l = heap, pq_s = insert (state x) (pq_s q)\<rparr>)"
  using assms by (subst push.simps) (simp split: sum.splits)

lemma push_present:
  assumes "state x \<in> pq_s q"
  shows "push q x c = replace q x c"
  using assms by (subst push.simps) (simp add: replace_def)

lemma push_fresh_ok:
  assumes "pq_inv q" "state x \<notin> pq_s q"
  shows "\<exists>r. push q x c = Some r
           \<and> (\<forall>q'. r = Inr q' \<longrightarrow> pq_inv q' \<and> mset (pq_l q') = add_mset (c, x) (mset (pq_l q))
                  \<and> pq_s q' = insert (state x) (pq_s q)
                  \<and> (heap_above (pq_l q) 0 \<longrightarrow> heap_above (pq_l q') 0))"
proof (cases "heappush (pq_l q) (c, x)")
  case (Inl e)
  then show ?thesis using push_fresh[OF assms(2), of c] by simp
next
  case (Inr h)
  define q1 where "q1 = \<lparr>pq_l = h, pq_s = insert (state x) (pq_s q)\<rparr>"
  have p: "push q x c = Some (Inr q1)" using push_fresh[OF assms(2), of c] Inr by (simp add: q1_def)
  have m: "mset (pq_l q1) = add_mset (c, x) (mset (pq_l q))"
    using heappush_mset[OF Inr] by (simp add: q1_def)
  have s: "pq_s q1 = insert (state x) (pq_s q)" by (simp add: q1_def)
  have inv: "pq_inv q1" using pq_inv_add[OF assms(1) m assms(2) s] .
  have hp: "heap_above (pq_l q) 0 \<longrightarrow> heap_above (pq_l q1) 0"
    using heappush_heap[OF Inr] by (simp add: q1_def)
  show ?thesis using p m s inv hp by simp
qed

lemma replace_ok:
  assumes "pq_inv q"
  shows "\<exists>r. replace q x c = Some r
           \<and> (\<forall>q'. r = Inr q' \<longrightarrow> pq_inv q' \<and> heap_above (pq_l q') 0
                  \<and> pq_s q' = insert (state x) (pq_s q)
                  \<and> (\<forall>e \<in> set (pq_l q). state (snd e) = state x \<longrightarrow>
                        mset (pq_l q') = add_mset (c, x) (mset (pq_l q) - {#e#}))
                  \<and> (state x \<notin> pq_s q \<longrightarrow> mset (pq_l q') = add_mset (c, x) (mset (pq_l q))))"
proof -
  from replace_remove_inv[OF assms, of x] obtain q1 where
    1: "replace_remove q x = Inr q1" and inv1: "pq_inv q1" and fresh: "state x \<notin> pq_s q1"
    and rem: "\<forall>e \<in> set (pq_l q). state (snd e) = state x \<longrightarrow>
                 pq_l q1 = remove1 e (pq_l q) \<and> pq_s q1 = pq_s q - {state x}"
    and same: "state x \<notin> pq_s q \<longrightarrow> q1 = q"
    by blast
  have s1: "insert (state x) (pq_s q1) = insert (state x) (pq_s q)"
  proof (cases "state x \<in> pq_s q")
    case True
    then obtain e where "e \<in> set (pq_l q)" "state (snd e) = state x"
      using assms by (auto simp: pq_inv_def)
    then have "pq_s q1 = pq_s q - {state x}" using rem by blast
    then show ?thesis by auto
  next
    case False
    then show ?thesis using same by simp
  qed
  have m1: "mset (pq_l q1) = mset (pq_l q) - {#e#}"
    if "e \<in> set (pq_l q)" "state (snd e) = state x" for e
  proof -
    have "pq_l q1 = remove1 e (pq_l q)" using rem that by blast
    then show ?thesis by simp
  qed
  show ?thesis
  proof (cases "heapify (pq_l q1)")
    case (Inl e)
    then show ?thesis using 1 by (simp add: replace_def)
  next
    case (Inr h)
    define q2 where "q2 = q1\<lparr>pq_l := h\<rparr>"
    have m: "mset (pq_l q2) = mset (pq_l q1)" using heapify_mset[OF Inr] by (simp add: q2_def)
    have s2: "pq_s q2 = pq_s q1" by (simp add: q2_def)
    have inv2: "pq_inv q2" using pq_inv_mset[OF inv1 m s2] .
    have fresh2: "state x \<notin> pq_s q2" using fresh by (simp add: q2_def)
    have h2: "heap_above (pq_l q2) 0" using heapify_heap[OF Inr] by (simp add: q2_def)
    have r: "replace q x c = push q2 x c" using 1 Inr by (simp add: replace_def q2_def)
    from push_fresh_ok[OF inv2 fresh2, of c] obtain r' where
      p: "push q2 x c = Some r'"
      and res: "\<And>q'. r' = Inr q' \<Longrightarrow> pq_inv q' \<and> mset (pq_l q') = add_mset (c, x) (mset (pq_l q2))
                  \<and> pq_s q' = insert (state x) (pq_s q2)
                  \<and> (heap_above (pq_l q2) 0 \<longrightarrow> heap_above (pq_l q') 0)"
      by blast
    have "pq_inv q' \<and> heap_above (pq_l q') 0
                  \<and> pq_s q' = insert (state x) (pq_s q)
                  \<and> (\<forall>e \<in> set (pq_l q). state (snd e) = state x \<longrightarrow>
                        mset (pq_l q') = add_mset (c, x) (mset (pq_l q) - {#e#}))
                  \<and> (state x \<notin> pq_s q \<longrightarrow> mset (pq_l q') = add_mset (c, x) (mset (pq_l q)))"
      if q': "r' = Inr q'" for q'
    proof (intro conjI ballI impI)
      show "pq_inv q'" using res[OF q'] by simp
      show "heap_above (pq_l q') 0" using res[OF q'] h2 by simp
      show "pq_s q' = insert (state x) (pq_s q)" using res[OF q'] s2 s1 by simp
    next
      fix e assume "e \<in> set (pq_l q)" "state (snd e) = state x"
      then show "mset (pq_l q') = add_mset (c, x) (mset (pq_l q) - {#e#})"
        using res[OF q'] m m1 by simp
    next
      assume "state x \<notin> pq_s q"
      then have "q1 = q" using same by simp
      then show "mset (pq_l q') = add_mset (c, x) (mset (pq_l q))"
        using res[OF q'] m by simp
    qed
    then show ?thesis using r p by simp
  qed
qed

lemma push_ok:
  assumes "pq_inv q"
  shows "\<exists>r. push q x c = Some r
           \<and> (\<forall>q'. r = Inr q' \<longrightarrow> pq_inv q' \<and> (heap_above (pq_l q) 0 \<longrightarrow> heap_above (pq_l q') 0))"
proof (cases "state x \<in> pq_s q")
  case True
  from replace_ok[OF assms, of x c] obtain r where
    "replace q x c = Some r" "\<forall>q'. r = Inr q' \<longrightarrow> pq_inv q' \<and> heap_above (pq_l q') 0"
    by blast
  then show ?thesis using push_present[OF True, of c] by simp
next
  case False
  from push_fresh_ok[OF assms False, of c] obtain r where
    "push q x c = Some r"
    "\<forall>q'. r = Inr q' \<longrightarrow> pq_inv q' \<and> (heap_above (pq_l q) 0 \<longrightarrow> heap_above (pq_l q') 0)"
    by blast
  then show ?thesis by simp
qed

lemma pop_ok:
  assumes "pq_inv q" "pop q = Inr (x, q')"
  shows "pq_inv q' \<and> (\<exists>c. mset (pq_l q) = add_mset (c, x) (mset (pq_l q')))
       \<and> pq_s q' = pq_s q - {state x}
       \<and> (heap_above (pq_l q) 0 \<longrightarrow> heap_above (pq_l q') 0 \<and> x = snd (pq_l q ! 0))"
proof -
  from assms(2) obtain e h where hp: "heappop (pq_l q) = Inr (e, h)"
    and x: "x = snd e" and q': "q' = \<lparr>pq_l = h, pq_s = pq_s q - {state (snd e)}\<rparr>"
    by (auto simp: pop_def set_remove_def split: sum.splits if_splits)
  have m: "mset (pq_l q) = add_mset e (mset h)" using heappop_mset[OF hp] .
  then have "e \<in># mset (pq_l q)" by simp
  then have e: "e \<in> set (pq_l q)" by simp
  define q1 where "q1 = \<lparr>pq_l = remove1 e (pq_l q), pq_s = pq_s q - {state (snd e)}\<rparr>"
  have "pq_inv q1" by (rule pq_inv_remove1[OF assms(1) e]) (simp_all add: q1_def)
  moreover have "mset (pq_l q') = mset (pq_l q1)" using m by (simp add: q' q1_def)
  moreover have "pq_s q' = pq_s q1" by (simp add: q' q1_def)
  ultimately have inv: "pq_inv q'" by (rule pq_inv_mset)
  have "e = (fst e, x)" using x by simp
  then have m': "mset (pq_l q) = add_mset (fst e, x) (mset (pq_l q'))" using m q' by simp
  have hp': "heap_above (pq_l q) 0 \<longrightarrow> heap_above (pq_l q') 0 \<and> x = snd (pq_l q ! 0)"
    using heappop_heap[OF hp] q' x by simp
  have s': "pq_s q' = pq_s q - {state x}" using q' x by simp
  show ?thesis using inv m' hp' s' by blast
qed

lemma step_ok:
  assumes "pq_inv q"
  shows "\<exists>r. step q a = Some r
           \<and> (\<forall>q'. r = Inr q' \<longrightarrow> pq_inv q' \<and> (heap_above (pq_l q) 0 \<longrightarrow> heap_above (pq_l q') 0))"
proof (cases a)
  case (Push x c)
  then show ?thesis using push_ok[OF assms, of x c] by simp
next
  case Pop
  show ?thesis
  proof (cases "pop q")
    case (Inl e)
    then show ?thesis using Pop by simp
  next
    case (Inr p)
    then obtain x q' where "pop q = Inr (x, q')" by (cases p) auto
    then show ?thesis using Pop pop_ok[OF assms, of x q'] by simp
  qed
next
  case (Replace x c)
  then show ?thesis using replace_ok[OF assms, of x c] by auto
qed

lemma run_ok:
  assumes "pq_inv q"
  shows "\<exists>r. run q ops = Some r
           \<and> (\<forall>q'. r = Inr q' \<longrightarrow> pq_inv q' \<and> (heap_above (pq_l q) 0 \<longrightarrow> heap_above (pq_l q') 0))"
  using assms
proof (induction ops arbitrary: q)
  case Nil
  then show ?case by simp
next
  case (Cons a ops)
  from step_ok[OF Cons.prems, of a] obtain r where
    s: "step q a = Some r"
    and r: "\<forall>q'. r = Inr q' \<longrightarrow> pq_inv q' \<and> (heap_above (pq_l q) 0 \<longrightarrow> heap_above (pq_l q') 0)"
    by blast
  show ?case
  proof (cases r)
    case (Inl e)
    then show ?thesis using s by simp
  next
    case (Inr q1)
    then have inv1: "pq_inv q1" and h1: "heap_above (pq_l q) 0 \<longrightarrow> heap_above (pq_l q1) 0"
      using r by auto
    from Cons.IH[OF inv1] h1 show ?thesis using s Inr by auto
  qed
qed

lemma pq_inv_new: "pq_inv PriorityQ_new"
  by (simp add: pq_inv_def PriorityQ_new_def)

lemma heap_above_Nil: "heap_above [] 0"
  by (simp add: heap_above_def)

lemma inj_on_fst_distinct: "distinct (map fst l) \<Longrightarrow> inj_on fst (set l)"
  by (simp add: distinct_map)

lemma returning_calls_keep_invariant:
  assumes "pq_inv q" "run q ops = Some (Inr q')"
  shows "pq_inv q'"
  using run_ok[OF assms(1), of ops] assms(2) by simp

lemma pop_returns_lowest:
  assumes "run PriorityQ_new ops = Some (Inr q)" "pop q = Inr (x, q')"
  shows "\<exists>c. (c, x) \<in> set (pq_l q) \<and> (\<forall>e \<in> set (pq_l q). c \<le> fst e)
           \<and> mset (pq_l q) = add_mset (c, x) (mset (pq_l q'))
           \<and> pq_s q' = pq_s q - {state x}"
proof -
  from run_ok[OF pq_inv_new, of ops] assms(1) have inv: "pq_inv q" and hp: "heap_above (pq_l q) 0"
    by (auto simp: PriorityQ_new_def heap_above_Nil)
  from pop_ok[OF inv assms(2)] hp obtain c where
    m: "mset (pq_l q) = add_mset (c, x) (mset (pq_l q'))"
    and s: "pq_s q' = pq_s q - {state x}" and x: "x = snd (pq_l q ! 0)"
    by blast
  have "(c, x) \<in># mset (pq_l q)" using m by simp
  then have mem: "(c, x) \<in> set (pq_l q)" by simp
  then have ne: "pq_l q \<noteq> []" by auto
  have d: "distinct (map (\<lambda>y. state (snd y)) (pq_l q))" using inv by (simp add: pq_inv_def)
  have "pq_l q ! 0 \<in> set (pq_l q)" using ne by simp
  moreover have "state (snd (pq_l q ! 0)) = state (snd (c, x))" using x by simp
  ultimately have root: "pq_l q ! 0 = (c, x)"
    using d mem by (metis (mono_tags, lifting) distinct_map inj_onD)
  have low: "c \<le> fst e" if "e \<in> set (pq_l q)" for e
  proof -
    from that obtain i where i: "i < length (pq_l q)" "pq_l q ! i = e"
      unfolding in_set_conv_nth by blast
    show ?thesis using heap_above_root[OF hp i(1)] root i(2) by simp
  qed
  show ?thesis using mem low m s by blast
qed

lemma pop_distinct_costs_returns:
  assumes "run PriorityQ_new ops = Some (Inr q)" "pq_l q \<noteq> []" "distinct (map fst (pq_l q))"
  shows "\<exists>x q'. pop q = Inr (x, q')"
proof -
  from run_ok[OF pq_inv_new, of ops] assms(1) have inv: "pq_inv q"
    by (auto simp: PriorityQ_new_def heap_above_Nil)
  have inj: "inj_on fst (set (pq_l q))" using assms(3) by (rule inj_on_fst_distinct)
  from heappop_Inr[OF inj assms(2)] obtain e h where e: "heappop (pq_l q) = Inr (e, h)" by blast
  have "mset (pq_l q) = add_mset e (mset h)" using heappop_mset[OF e] .
  then have "e \<in># mset (pq_l q)" by simp
  then have "e \<in> set (pq_l q)" by simp
  then have "state (snd e) \<in> pq_s q" using inv by (simp add: pq_inv_def)
  then show ?thesis using e by (simp add: pop_def set_remove_def)
qed

section \<open>The claims about the grid map\<close>

text \<open>
  Claim C3. On a loaded map, for every in-bounds state and every action of \<open>u\<close>, \<open>d\<close>,
  \<open>l\<close>, \<open>r\<close>, \<open>transition\<close> is a function of its arguments that returns a state, raises
  nothing and prints nothing; when the cell the action leads to is off the grid or
  occupied, the state returned is the state given.
\<close>

theorem transition_blocked_self_loop:
  assumes "grid_ok g" "in_bounds g s" "a \<in> set ACTIONS"
  shows "(\<exists>s'. transition g s a = ([], Inr s'))
       \<and> (\<not> in_bounds g (displace s a) \<or> occupied g (displace s a)
            \<longrightarrow> transition g s a = ([], Inr s))"
  using transition_cases[OF assms] by auto

theorem transition_blocked_self_loop_witness:
  "grid_ok map1 \<and> in_bounds map1 (0, 1) \<and> ''r'' \<in> set ACTIONS
   \<and> occupied map1 (displace (0, 1) ''r'') \<and> transition map1 (0, 1) ''r'' = ([], Inr (0, 1))
   \<and> in_bounds map1 (0, 0) \<and> ''u'' \<in> set ACTIONS
   \<and> \<not> in_bounds map1 (displace (0, 0) ''u'') \<and> transition map1 (0, 0) ''u'' = ([], Inr (0, 0))"
proof -
  have h: "grid_ok map1" "in_bounds map1 (0, 1)" "''r'' \<in> set ACTIONS"
    "occupied map1 (displace (0, 1) ''r'')"
    "in_bounds map1 (0, 0)" "''u'' \<in> set ACTIONS" "\<not> in_bounds map1 (displace (0, 0) ''u'')"
    by (simp_all add: map1_def grid_ok_def in_bounds_def ACTIONS_def occupied_def displace_def)
  show ?thesis
    using h transition_blocked_self_loop[OF h(1) h(2) h(3)] transition_blocked_self_loop[OF h(1) h(5) h(6)] by simp
qed

text \<open>
  Claim C10. From an in-bounds free cell of a loaded map, every action of \<open>u\<close>, \<open>d\<close>,
  \<open>l\<close>, \<open>r\<close> leads to an in-bounds free cell.
\<close>

theorem transition_closed_on_free_cells:
  assumes "grid_ok g" "in_bounds g s" "\<not> occupied g s" "a \<in> set ACTIONS"
  shows "\<exists>s'. transition g s a = ([], Inr s') \<and> in_bounds g s' \<and> \<not> occupied g s'"
  using transition_cases[OF assms(1,2,4)] assms(2,3) by auto

theorem transition_closed_on_free_cells_witness:
  "grid_ok map1 \<and> in_bounds map1 (0, 0) \<and> \<not> occupied map1 (0, 0) \<and> ''d'' \<in> set ACTIONS
   \<and> (\<exists>s'. transition map1 (0, 0) ''d'' = ([], Inr s') \<and> in_bounds map1 s' \<and> \<not> occupied map1 s')"
proof -
  have h: "grid_ok map1" "in_bounds map1 (0, 0)" "\<not> occupied map1 (0, 0)" "''d'' \<in> set ACTIONS"
    by (simp_all add: map1_def grid_ok_def in_bounds_def ACTIONS_def occupied_def)
  show ?thesis using h transition_closed_on_free_cells[OF h] by simp
qed

text \<open>
  Claim C9 says that an action outside \<open>u\<close>, \<open>d\<close>, \<open>l\<close>, \<open>r\<close> makes \<open>transition\<close> fail.
  The code does not fail: on the map \<open>map1\<close>, the action \<open>x\<close> from the cell \<open>(0, 0)\<close>
  prints one line and returns the cell.
\<close>

theorem transition_unknown_action_returns:
  "''x'' \<notin> set ACTIONS \<and> transition map1 (0, 0) ''x'' = ([''Unknown action: x''], Inr (0, 0))"
  by (simp add: ACTIONS_def transition_def map1_def np_getitem_def np_index_def)

text \<open>
  Claim C9 as the code has it: on a loaded map and an in-bounds state, an action outside
  \<open>u\<close>, \<open>d\<close>, \<open>l\<close>, \<open>r\<close> prints the line \<open>Unknown action:\<close> followed by the action, and
  the state given is returned.
\<close>

theorem transition_unknown_action_self_loop:
  assumes "grid_ok g" "in_bounds g s" "a \<notin> set ACTIONS"
  shows "transition g s a = ([''Unknown action: '' @ a], Inr s)"
proof -
  obtain grid where g: "occupancy_grid g = Some grid"
    using assms(1) by (auto simp: grid_ok_def split: option.splits)
  have a: "a \<noteq> ''u''" "a \<noteq> ''d''" "a \<noteq> ''l''" "a \<noteq> ''r''"
    using assms(3) by (auto simp: ACTIONS_def)
  show ?thesis
    using a g np_getitem_in[OF assms(1,2) g] by (simp add: transition_def)
qed

theorem transition_unknown_action_self_loop_witness:
  "grid_ok map1 \<and> in_bounds map1 (1, 1) \<and> ''ne'' \<notin> set ACTIONS
   \<and> transition map1 (1, 1) ''ne'' = ([''Unknown action: ne''], Inr (1, 1))"
proof -
  have h: "grid_ok map1" "in_bounds map1 (1, 1)" "''ne'' \<notin> set ACTIONS"
    by (simp_all add: map1_def grid_ok_def in_bounds_def ACTIONS_def)
  show ?thesis using h transition_unknown_action_self_loop[OF h] by simp
qed

text \<open>
  Claim C6 says that \<open>read_map\<close> pads a short row with free cells. The width is the
  maximum line length, as the claim says, but the inner loop reads \<open>lines[r][c]\<close> for every
  column below that width: whenever two lines differ in stripped length, \<open>read_map\<close> raises
  IndexError.
\<close>

theorem read_map_short_row_raises:
  assumes "l1 \<in> set file_lines" "l2 \<in> set file_lines" "length (rstrip l1) < length (rstrip l2)"
  shows "read_map self file_lines = Inl IndexError"
  using assms by (rule read_map_Inl)

theorem read_map_short_row_raises_witness:
  "''g'' @ [CHR 0x0A] \<in> set (file_lines_of [''i0'', ''g''])
   \<and> ''i0'' @ [CHR 0x0A] \<in> set (file_lines_of [''i0'', ''g''])
   \<and> length (rstrip (''g'' @ [CHR 0x0A])) < length (rstrip (''i0'' @ [CHR 0x0A]))
   \<and> read_map GridMap_new (file_lines_of [''i0'', ''g'']) = Inl IndexError"
proof -
  have h: "''g'' @ [CHR 0x0A] \<in> set (file_lines_of [''i0'', ''g''])"
    "''i0'' @ [CHR 0x0A] \<in> set (file_lines_of [''i0'', ''g''])"
    "length (rstrip (''g'' @ [CHR 0x0A])) < length (rstrip (''i0'' @ [CHR 0x0A]))"
    by (simp_all add: file_lines_of_def rstrip_def py_isspace_def)
  show ?thesis using h read_map_short_row_raises[OF h] by simp
qed

lemma read_map_short_row_example:
  "GridMap_init (file_lines_of [''i0'', ''g'']) = Inl IndexError"
  by code_simp

text \<open>
  Claim C7 says that loading fails with MapFormatError when a marker is missing or
  duplicated or the input is empty. The code checks no marker: a map with no marker at
  all loads, with \<open>goal\<close> and \<open>init_pos\<close> unset; a map with each marker twice loads, the
  later cell of each kept; the empty input fails with ValueError.
\<close>

theorem read_map_accepts_any_markers:
  "GridMap_init (file_lines_of [''00'']) = Inr map2
   \<and> GridMap_init (file_lines_of [''gi'', ''ig'']) =
       Inr \<lparr>rows = Some 2, cols = Some 2, goal = Some (1, 1), init_pos = Some (1, 0),
            occupancy_grid = Some [[False, False], [False, False]]\<rparr>
   \<and> GridMap_init (file_lines_of []) = Inl ValueError"
  by code_simp

text \<open>
  Claim C7 as the code has it: \<open>read_map\<close> never fails with MapFormatError; the input
  with no line fails with ValueError; an input of one or more lines that all have the same
  length once stripped loads whatever markers it holds, and afterwards \<open>goal\<close> is the last
  cell marked \<open>g\<close> in row-major order, \<open>init_pos\<close> the last cell marked \<open>i\<close>, each left as
  it was when no cell carries its marker.
\<close>

theorem read_map_checks_no_marker:
  "read_map self [] = Inl ValueError
   \<and> read_map self file_lines \<noteq> Inl MapFormatError
   \<and> (file_lines \<noteq> [] \<and> (\<forall>l \<in> set file_lines. length (rstrip l) = n) \<longrightarrow>
        (\<exists>grid. read_map self file_lines =
            Inr \<lparr>rows = Some (int (length file_lines)), cols = Some (int n),
                 goal = keep_last (goal self) (marker_cells (CHR ''g'') file_lines),
                 init_pos = keep_last (init_pos self) (marker_cells (CHR ''i'') file_lines),
                 occupancy_grid = Some grid\<rparr>
          \<and> map length grid = replicate (length file_lines) n))"
proof (intro conjI impI)
  show "read_map self [] = Inl ValueError" by (rule read_map_empty)
  show "read_map self file_lines \<noteq> Inl MapFormatError"
    using read_map_error[of self file_lines MapFormatError] by auto
next
  assume a: "file_lines \<noteq> [] \<and> (\<forall>l \<in> set file_lines. length (rstrip l) = n)"
  then obtain grid g i where
    1: "read_map self file_lines =
            Inr (self\<lparr>rows := Some (int (length file_lines)), cols := Some (int n),
                   occupancy_grid := Some grid, goal := g, init_pos := i\<rparr>)"
    and 2: "map length grid = replicate (length file_lines) n"
    using read_map_Inr[of file_lines n self] by blast
  from read_map_markers[OF 1] have
    "g = keep_last (goal self) (marker_cells (CHR ''g'') file_lines)"
    "i = keep_last (init_pos self) (marker_cells (CHR ''i'') file_lines)" by simp_all
  with 1 2 show "\<exists>grid. read_map self file_lines =
            Inr \<lparr>rows = Some (int (length file_lines)), cols = Some (int n),
                 goal = keep_last (goal self) (marker_cells (CHR ''g'') file_lines),
                 init_pos = keep_last (init_pos self) (marker_cells (CHR ''i'') file_lines),
                 occupancy_grid = Some grid\<rparr>
          \<and> map length grid = replicate (length file_lines) n"
    by (cases self) auto
qed

theorem read_map_checks_no_marker_witness:
  "file_lines_of [''i0x'', ''00X'', ''00g''] \<noteq> []
   \<and> map (\<lambda>l. length (rstrip l)) (file_lines_of [''i0x'', ''00X'', ''00g'']) = [3, 3, 3]
   \<and> (\<exists>grid. read_map GridMap_new (file_lines_of [''i0x'', ''00X'', ''00g'']) =
          Inr \<lparr>rows = Some 3, cols = Some 3, goal = Some (2, 2), init_pos = Some (0, 0),
               occupancy_grid = Some grid\<rparr>
        \<and> map length grid = [3, 3, 3])"
proof -
  have h: "map (\<lambda>l. length (rstrip l)) (file_lines_of [''i0x'', ''00X'', ''00g'']) = [3, 3, 3]"
    by code_simp
  then have a: "\<forall>l \<in> set (file_lines_of [''i0x'', ''00X'', ''00g'']). length (rstrip l) = 3"
    by (simp add: file_lines_of_def)
  have n: "file_lines_of [''i0x'', ''00X'', ''00g''] \<noteq> []"
    by (simp add: file_lines_of_def)
  have g: "marker_cells (CHR ''g'') (file_lines_of [''i0x'', ''00X'', ''00g'']) = [(2, 2)]"
    by code_simp
  have i: "marker_cells (CHR ''i'') (file_lines_of [''i0x'', ''00X'', ''00g'']) = [(0, 0)]"
    by code_simp
  have r: "replicate (length (file_lines_of [''i0x'', ''00X'', ''00g''])) (3::nat) = [3, 3, 3]"
    by code_simp
  have l: "int (length (file_lines_of [''i0x'', ''00X'', ''00g''])) = 3"
    by (simp add: file_lines_of_def)
  show ?thesis
    using h n a
      read_map_checks_no_marker [of GridMap_new "file_lines_of [''i0x'', ''00X'', ''00g'']" 3]
    unfolding g i r l
    by (simp add: keep_last_def GridMap_new_def)
qed

section \<open>The claim about backpath\<close>

text \<open>
  Claim C2 says that \<open>backpath\<close> returns the states and actions along the parent chain.
  The function's body is not written: for every node it returns two empty lists, so not
  even the node's own state is in the path.
\<close>

theorem backpath_returns_empty_lists: "backpath node = ([], [])"
  by (simp add: backpath_def)

section \<open>The claims about the frontier\<close>

text \<open>
  Claim C5 says that the queue holds at most one entry per state and that its set is the
  set of the states of its entries, at every moment and after any sequence of calls of
  \<open>push\<close>, \<open>pop\<close> and \<open>replace\<close>. A call that raises breaks this. After a push at cost 1
  for one state, a push at cost 1 for another state appends its entry to the list, and
  the comparison of the two nodes then raises TypeError before the state is added to the
  set: the list has two entries and the set one state. After pushes at costs 0, 1 and 1
  for three states, \<open>pop\<close> takes the entry of cost 0 out of the list and raises TypeError
  before its state is removed from the set: the set has a state that no entry has. (The
  calls that return keep the invariant: \<open>returning_calls_keep_invariant\<close>.)
\<close>

theorem raise_breaks_queue_invariant:
  "run PriorityQ_new [Push (root_node (0, 1) 1) 1, Push (root_node (1, 0) 1) 1] =
     Some (Inl (TypeError, \<lparr>pq_l = [(1, root_node (0, 1) 1), (1, root_node (1, 0) 1)], pq_s = {(0, 1)}\<rparr>))
   \<and> \<not> pq_inv \<lparr>pq_l = [(1, root_node (0, 1) 1), (1, root_node (1, 0) 1)], pq_s = {(0, 1)}\<rparr>
   \<and> run PriorityQ_new [Push (root_node (0, 0) 0) 0, Push (root_node (0, 1) 1) 1, Push (root_node (1, 0) 1) 1, Pop] =
       Some (Inl (TypeError,
         \<lparr>pq_l = [(1, root_node (0, 1) 1), (1, root_node (1, 0) 1)], pq_s = {(0, 0), (0, 1), (1, 0)}\<rparr>))
   \<and> \<not> pq_inv \<lparr>pq_l = [(1, root_node (0, 1) 1), (1, root_node (1, 0) 1)], pq_s = {(0, 0), (0, 1), (1, 0)}\<rparr>"
proof -
  have 1: "run PriorityQ_new [Push (root_node (0, 1) 1) 1, Push (root_node (1, 0) 1) 1] =
     Some (Inl (TypeError, \<lparr>pq_l = [(1, root_node (0, 1) 1), (1, root_node (1, 0) 1)], pq_s = {(0, 1)}\<rparr>))"
    by code_simp
  have 2: "\<not> pq_inv \<lparr>pq_l = [(1, root_node (0, 1) 1), (1, root_node (1, 0) 1)], pq_s = {(0, 1)}\<rparr>"
    by (auto simp: pq_inv_def root_node_def)
  have 3: "run PriorityQ_new [Push (root_node (0, 0) 0) 0, Push (root_node (0, 1) 1) 1, Push (root_node (1, 0) 1) 1, Pop] =
       Some (Inl (TypeError,
         \<lparr>pq_l = [(1, root_node (0, 1) 1), (1, root_node (1, 0) 1)], pq_s = {(0, 0), (0, 1), (1, 0)}\<rparr>))"
    by code_simp
  have 4: "\<not> pq_inv \<lparr>pq_l = [(1, root_node (0, 1) 1), (1, root_node (1, 0) 1)], pq_s = {(0, 0), (0, 1), (1, 0)}\<rparr>"
    by code_simp
  show ?thesis using 1 2 3 4 by blast
qed

text \<open>
  Claim C8 says that \<open>pop\<close> on an empty frontier fails with EmptyFrontierError. It fails
  with another exception, the IndexError of \<open>heapq.heappop\<close>.
\<close>

theorem pop_empty_not_EmptyFrontierError:
  "pop PriorityQ_new = Inl (IndexError, PriorityQ_new)
   \<and> pop PriorityQ_new \<noteq> Inl (EmptyFrontierError, PriorityQ_new)"
  by (simp add: pop_def heappop_def PriorityQ_new_def)

text \<open>
  Claim C8 as the code has it: \<open>pop\<close> on a queue with an empty list fails with
  IndexError, whatever the set holds, and leaves the queue as it is.
\<close>

theorem pop_empty_raises_IndexError:
  "pop \<lparr>pq_l = [], pq_s = S\<rparr> = Inl (IndexError, \<lparr>pq_l = [], pq_s = S\<rparr>)"
  by (simp add: pop_def heappop_def)

text \<open>
  Claim C4 says that \<open>pop\<close> removes and returns the entry of lowest cost, and that entries
  of equal lowest cost leave in the order of their insertion. After the pushes of three
  nodes at costs 0, 1 and 1 the entry of lowest cost is the first one alone, and \<open>pop\<close>
  does not return it: the sift that follows its removal compares the two nodes of cost 1
  and raises TypeError. The entries are pairs of a cost and a node, with no insertion
  counter: two pushes at the same cost 1 do not leave two entries to choose from, the
  second push raises TypeError. (When \<open>pop\<close> returns, it returns an entry of lowest cost:
  \<open>pop_returns_lowest\<close>.)
\<close>

theorem pop_equal_costs_raises:
  "run PriorityQ_new [Push (root_node (0, 0) 0) 0, Push (root_node (0, 1) 1) 1, Push (root_node (1, 0) 1) 1] =
     Some (Inr \<lparr>pq_l = [(0, root_node (0, 0) 0), (1, root_node (0, 1) 1), (1, root_node (1, 0) 1)], pq_s = {(0, 0), (0, 1), (1, 0)}\<rparr>)
   \<and> pop \<lparr>pq_l = [(0, root_node (0, 0) 0), (1, root_node (0, 1) 1), (1, root_node (1, 0) 1)], pq_s = {(0, 0), (0, 1), (1, 0)}\<rparr> =
       Inl (TypeError, \<lparr>pq_l = [(1, root_node (0, 1) 1), (1, root_node (1, 0) 1)], pq_s = {(0, 0), (0, 1), (1, 0)}\<rparr>)
   \<and> push \<lparr>pq_l = [(1, root_node (0, 1) 1)], pq_s = {(0, 1)}\<rparr> (root_node (1, 0) 1) 1 =
       Some (Inl (TypeError, \<lparr>pq_l = [(1, root_node (0, 1) 1), (1, root_node (1, 0) 1)], pq_s = {(0, 1)}\<rparr>))"
  by code_simp

text \<open>
  Claim C1 says that a push for a state already in the frontier replaces the entry only
  when the new cost is strictly lower. \<open>push\<close> compares no costs: after pushes at costs 5
  and 3 for one state the entry has cost 3, and a push at cost 7 replaces it by an entry
  of cost 7.
\<close>

theorem push_higher_cost_replaces:
  "run PriorityQ_new [Push (root_node (0, 0) 5) 5, Push (root_node (0, 0) 3) 3] =
     Some (Inr \<lparr>pq_l = [(3, root_node (0, 0) 3)], pq_s = {(0, 0)}\<rparr>)
   \<and> get_cost \<lparr>pq_l = [(3, root_node (0, 0) 3)], pq_s = {(0, 0)}\<rparr> (root_node (0, 0) 7) = Some 3
   \<and> push \<lparr>pq_l = [(3, root_node (0, 0) 3)], pq_s = {(0, 0)}\<rparr> (root_node (0, 0) 7) 7 =
       Some (Inr \<lparr>pq_l = [(7, root_node (0, 0) 7)], pq_s = {(0, 0)}\<rparr>)
   \<and> get_cost \<lparr>pq_l = [(7, root_node (0, 0) 7)], pq_s = {(0, 0)}\<rparr> (root_node (0, 0) 7) = Some 7"
  by code_simp

text \<open>
  Claim C1 as the code has it: a push for a state that has an entry replaces that entry by
  the new node and the new cost, whatever the two costs are, and changes nothing else;
  the state keeps exactly one entry. (The hypothesis on the costs excludes equal costs
  among the entries that are compared.)
\<close>

theorem push_present_state_replaces:
  assumes "pq_inv q" "(c0, x0) \<in> set (pq_l q)" "state x0 = state x"
    "distinct (c # map fst (remove1 (c0, x0) (pq_l q)))"
  shows "\<exists>q'. push q x c = Some (Inr q')
           \<and> mset (pq_l q') = add_mset (c, x) (mset (pq_l q) - {#(c0, x0)#})
           \<and> pq_s q' = pq_s q \<and> pq_inv q' \<and> get_cost q' x = Some c"
proof -
  have ins: "state x \<in> pq_s q" using assms(1,2,3) by (force simp: pq_inv_def)
  from replace_remove_inv[OF assms(1), of x] assms(2,3) obtain q1 where
    1: "replace_remove q x = Inr q1" and l1: "pq_l q1 = remove1 (c0, x0) (pq_l q)"
    and fresh: "state x \<notin> pq_s q1"
    by force
  have "inj_on fst (set (pq_l q1))" using assms(4) l1 by (simp add: distinct_map)
  from heapify_Inr[OF this] obtain h where h: "heapify (pq_l q1) = Inr h" by blast
  have sh: "set h = set (pq_l q1)" using heapify_mset[OF h] by (rule mset_eq_setD)
  have "distinct (map fst ((c, x) # pq_l q1))" using assms(4) l1 by simp
  then have "inj_on fst (set ((c, x) # pq_l q1))" by (rule inj_on_fst_distinct)
  then have "inj_on fst (insert (c, x) (set h))" using sh by simp
  from heappush_Inr[OF this] obtain h' where h': "heappush h (c, x) = Inr h'" by blast
  have "push (q1\<lparr>pq_l := h\<rparr>) x c = Some (Inr \<lparr>pq_l = h', pq_s = insert (state x) (pq_s q1)\<rparr>)"
    using push_fresh[of x "q1\<lparr>pq_l := h\<rparr>" c] fresh h' by simp
  then have rp: "replace q x c = Some (Inr \<lparr>pq_l = h', pq_s = insert (state x) (pq_s q1)\<rparr>)"
    using 1 h by (simp add: replace_def)
  define q' where "q' = \<lparr>pq_l = h', pq_s = insert (state x) (pq_s q1)\<rparr>"
  from replace_ok[OF assms(1), of x c] rp have
    inv: "pq_inv q'" and s: "pq_s q' = insert (state x) (pq_s q)"
    and m: "mset (pq_l q') = add_mset (c, x) (mset (pq_l q) - {#(c0, x0)#})"
    using assms(2,3) by (auto simp: q'_def)
  have "(c, x) \<in># mset (pq_l q')" using m by simp
  then have "(c, x) \<in> set (pq_l q')" by simp
  then have "find (\<lambda>y. state x = state (snd y)) (pq_l q') = Some (c, x)"
    using find_state_unique[of "pq_l q'" "(c, x)" x] inv by (simp add: pq_inv_def)
  then have gc: "get_cost q' x = Some c" by (simp add: get_cost_def)
  have "push q x c = Some (Inr q')" using push_present[OF ins, of c] rp by (simp add: q'_def)
  then show ?thesis using m s ins inv gc by (auto simp: insert_absorb)
qed

theorem push_present_state_replaces_witness:
  "pq_inv \<lparr>pq_l = [(3, root_node (0, 0) 3), (4, root_node (0, 1) 4)], pq_s = {(0, 0), (0, 1)}\<rparr>
   \<and> (3::int, root_node (0, 0) 3) \<in> set [(3, root_node (0, 0) 3), (4, root_node (0, 1) 4)]
   \<and> state (root_node (0, 0) 3) = state (root_node (0, 0) 7)
   \<and> distinct ((7::int) # map fst (remove1 (3, root_node (0, 0) 3) [(3, root_node (0, 0) 3), (4, root_node (0, 1) 4)]))
   \<and> push \<lparr>pq_l = [(3, root_node (0, 0) 3), (4, root_node (0, 1) 4)], pq_s = {(0, 0), (0, 1)}\<rparr>
        (root_node (0, 0) 7) 7 =
       Some (Inr \<lparr>pq_l = [(4, root_node (0, 1) 4), (7, root_node (0, 0) 7)], pq_s = {(0, 0), (0, 1)}\<rparr>)"
proof -
  have h: "pq_inv \<lparr>pq_l = [(3, root_node (0, 0) 3), (4, root_node (0, 1) 4)], pq_s = {(0, 0), (0, 1)}\<rparr>"
    "(3, root_node (0, 0) 3) \<in> set (pq_l \<lparr>pq_l = [(3, root_node (0, 0) 3), (4, root_node (0, 1) 4)], pq_s = {(0, 0), (0, 1)}\<rparr>)"
    "state (root_node (0, 0) 3) = state (root_node (0, 0) 7)"
    "distinct (7 # map fst (remove1 (3, root_node (0, 0) 3)
        (pq_l \<lparr>pq_l = [(3, root_node (0, 0) 3), (4, root_node (0, 1) 4)], pq_s = {(0, 0), (0, 1)}\<rparr>)))"
    by (auto simp: pq_inv_def root_node_def)
  have e: "push \<lparr>pq_l = [(3, root_node (0, 0) 3), (4, root_node (0, 1) 4)], pq_s = {(0, 0), (0, 1)}\<rparr>
        (root_node (0, 0) 7) 7 =
       Some (Inr \<lparr>pq_l = [(4, root_node (0, 1) 4), (7, root_node (0, 0) 7)], pq_s = {(0, 0), (0, 1)}\<rparr>)"
    by code_simp
  from push_present_state_replaces[OF h] have "\<exists>q'. push \<lparr>pq_l = [(3, root_node (0, 0) 3), (4, root_node (0, 1) 4)], pq_s = {(0, 0), (0, 1)}\<rparr>
        (root_node (0, 0) 7) 7 = Some (Inr q')" by blast
  then show ?thesis using h e by simp
qed

end
